theory Spec2Isabelle
  imports Main "HOL-Library.Sublist" "HOL-Library.Multiset"
begin

section \<open>FileLoader: a caching file downloader built on pinkySwear promises\<close>

text \<open>
  The theory embeds \<^verbatim>\<open>src/file_loader.js\<close>: the \<^verbatim>\<open>File\<close> class (cache entry), the
  dispatch queue (\<^verbatim>\<open>requestDispatch\<close>, \<^verbatim>\<open>dispatchNextTask\<close>), \<^verbatim>\<open>FileLoader.download\<close>
  and the modified pinkySwear promise.

  JavaScript runs one turn at a time. A turn is a call of \<^verbatim>\<open>download\<close>, a callback of the
  HTTP client, or one function handed to \<^verbatim>\<open>setTimeout(callback, 0)\<close>. The functions
  deferred with \<^verbatim>\<open>setTimeout\<close> wait in a first-in first-out list (\<open>timers\<close>).
  Closures are represented by the data they capture.
\<close>

subsection \<open>Values, closures and objects\<close>

type_synonym pid = nat
type_synonym fref = nat

text \<open>
  The JavaScript values that travel through promises. \<open>LoadEvent d\<close> is the event the
  HTTP client passes to \<^verbatim>\<open>onload\<close>: its \<^verbatim>\<open>source\<close> is the client, whose
  \<^verbatim>\<open>responseData\<close> is \<open>d\<close>. \<open>WriteFailed url f\<close> is the \<^verbatim>\<open>Error\<close> thrown when the
  written file does not exist; \<open>TypeError\<close> is what reading a property of
  \<^verbatim>\<open>undefined\<close> throws.
\<close>

datatype val =
    Undefined
  | Str string
  | FileV fref
  | PromiseV pid
  | LoadEvent string
  | HttpClientV string
  | ErrorEvent string
  | DataV string
  | WriteFailed string fref
  | TypeError

text \<open>
  The functions that are passed around as handlers:
  \<^item> \<open>User n\<close>: a function supplied by the consumer, number \<open>n\<close>;
  \<^item> \<open>SpawnFn url\<close>: the first handler of \<^verbatim>\<open>download\<close>, which creates \<^verbatim>\<open>waitForHttp\<close> and
    calls \<^verbatim>\<open>spawnHTTPClient\<close>;
  \<^item> \<open>GetFn prop\<close>: \<^verbatim>\<open>function(value) { return value[prop]; }\<close> of \<^verbatim>\<open>set.get\<close>;
  \<^item> \<open>WriteFn url file\<close>: the handler of \<^verbatim>\<open>download\<close> that writes the data;
  \<^item> \<open>FinFn file\<close>: the function \<^verbatim>\<open>download\<close> passes to \<^verbatim>\<open>fin\<close>;
  \<^item> \<open>AdoptFulfil p\<close>, \<open>AdoptReject p\<close>, \<open>AdoptNotify p\<close>: the three functions
    \<^verbatim>\<open>callCallbacks\<close> passes to \<^verbatim>\<open>r.then\<close>, with \<^verbatim>\<open>newPromise\<close> = \<open>p\<close>.
\<close>

datatype fn =
    User nat
  | SpawnFn string
  | GetFn string
  | WriteFn string fref
  | FinFn fref
  | AdoptFulfil pid
  | AdoptReject pid
  | AdoptNotify pid

text \<open>The closure \<^verbatim>\<open>callCallbacks\<close> of \<^verbatim>\<open>set.then\<close>: the promise \<^verbatim>\<open>then\<close> was called on,
  \<^verbatim>\<open>onFulfilled\<close>, \<^verbatim>\<open>onRejected\<close> (\<open>None\<close>: not a function) and \<^verbatim>\<open>newPromise\<close>.\<close>

datatype callback = CallCallbacks pid "fn option" "fn option" pid

text \<open>What \<^verbatim>\<open>defer\<close> hands to \<^verbatim>\<open>setTimeout\<close>: the loop over \<^verbatim>\<open>deferred\<close> of \<^verbatim>\<open>set\<close>, one
  \<^verbatim>\<open>callCallbacks\<close> of \<^verbatim>\<open>then\<close>, or the loop over \<^verbatim>\<open>progress_fns\<close> of \<^verbatim>\<open>notify\<close>.\<close>

datatype task = RunDeferred pid | RunCallback callback | RunNotify pid val

datatype outcome = Returns val | Throws val

text \<open>The variables a \<^verbatim>\<open>pinkySwear()\<close> call closes over. \<open>pstate\<close> is \<open>None\<close> while
  \<^verbatim>\<open>state\<close> is undefined. \<open>forward = Some q\<close> when \<^verbatim>\<open>q.then\<close> created the promise and
  replaced its \<^verbatim>\<open>progress\<close> and \<^verbatim>\<open>notify\<close> by functions that call those of \<open>q\<close>.\<close>

record promise =
  pstate :: "bool option"
  pvalues :: "val list"
  deferred :: "callback list"
  progress_fns :: "fn list option"
  forward :: "pid option"

record cache_data =
  m_last_used_at :: int
  m_md5 :: "string option"

record file_obj =
  file_id :: string
  is_cached :: bool
  last_used_at :: int
  md5 :: "string option"
  pending :: bool
  downloaded :: bool

text \<open>The argument of \<^verbatim>\<open>download\<close>: the URL and the numbers of the consumer's
  callbacks. A bare URL has no callbacks.\<close>

record args =
  url :: string
  onload :: "nat option"
  onerror :: "nat option"
  ondatastream :: "nat option"

text \<open>
  What the module reads from its host: the configuration, \<^verbatim>\<open>Ti.Utils.md5HexDigest\<close>,
  whether writing some data under a file name leaves a file there, and what each
  consumer function does with its arguments.
\<close>

record env =
  MAX_ASYNC_TASKS :: int
  EXPIRATION_TIME :: int
  md5HexDigest :: "string \<Rightarrow> string"
  fs_write :: "string \<Rightarrow> string \<Rightarrow> bool"
  user :: "nat \<Rightarrow> val list \<Rightarrow> outcome"

text \<open>
  The state of the module and of its host. \<open>pending_tasks\<close> holds the promise of each
  file id in flight and \<open>dispatch_queue\<close> is \<^verbatim>\<open>pending_tasks.dispatch_queue\<close> (an MD5 hex
  digest is never the string \<^verbatim>\<open>dispatch_queue\<close>). \<open>http\<close> lists the HTTP clients that
  were sent and have not called \<^verbatim>\<open>onload\<close> or \<^verbatim>\<open>onerror\<close> yet, each with its URL and the
  promise \<^verbatim>\<open>spawnHTTPClient\<close> was given. \<open>disk\<close> tells which files of the cache directory
  exist. \<open>sent\<close> and \<open>calls\<close> only record what happened: the URL of every request sent,
  and every call of a consumer function with its arguments.
\<close>

record state =
  promises :: "pid \<Rightarrow> promise"
  next_promise :: pid
  timers :: "task list"
  metadata :: "string \<Rightarrow> cache_data option"
  disk :: "string \<Rightarrow> bool"
  files :: "fref \<Rightarrow> file_obj"
  next_file :: fref
  pending_tasks :: "string \<Rightarrow> pid option"
  dispatch_queue :: "pid list"
  http :: "(string \<times> pid) list"
  now :: int
  online :: bool
  sent :: "string list"
  calls :: "(nat \<times> val list) list"

subsection \<open>pinkySwear\<close>

definition defer_call :: "task \<Rightarrow> state \<Rightarrow> state" where
  "defer_call t s = s\<lparr>timers := timers s @ [t]\<rparr>"

definition pinkySwear :: "state \<Rightarrow> pid \<times> state" where
  "pinkySwear s =
     (next_promise s,
      s\<lparr>promises := (promises s)(next_promise s :=
           \<lparr>pstate = None, pvalues = [], deferred = [], progress_fns = None, forward = None\<rparr>),
        next_promise := Suc (next_promise s)\<rparr>)"

text \<open>\<^verbatim>\<open>set(newState, newValues)\<close>.\<close>

definition set_promise :: "pid \<Rightarrow> bool option \<Rightarrow> val list \<Rightarrow> state \<Rightarrow> state" where
  "set_promise p newState newValues s =
     (if pstate (promises s p) = None
      then defer_call (RunDeferred p)
             (s\<lparr>promises := (promises s)(p :=
                  (promises s p)\<lparr>pstate := newState, pvalues := newValues\<rparr>)\<rparr>)
      else s)"

definition resolve :: "pid \<Rightarrow> val \<Rightarrow> state \<Rightarrow> state" where
  "resolve p v s = set_promise p (Some True) [v] s"

definition reject :: "pid \<Rightarrow> val \<Rightarrow> state \<Rightarrow> state" where
  "reject p v s = set_promise p (Some False) [v] s"

text \<open>
  The promise whose own \<^verbatim>\<open>progress\<close> and \<^verbatim>\<open>notify\<close> a call on \<open>p\<close> ends in: the
  replaced functions of a promise made by \<^verbatim>\<open>then\<close> call those of the promise
  \<^verbatim>\<open>then\<close> was called on. A promise is created after the promise it forwards to, so
  the chain goes down the numbers.
\<close>

function origin :: "(pid \<Rightarrow> promise) \<Rightarrow> pid \<Rightarrow> pid" where
  "origin ps p =
     (case forward (ps p) of
        None \<Rightarrow> p
      | Some q \<Rightarrow> if q < p then origin ps q else p)"
  by pat_completeness auto
termination
  by (relation "measure snd") auto

declare origin.simps [simp del]

text \<open>\<^verbatim>\<open>set.progress(onProgress)\<close>.\<close>

definition progress :: "pid \<Rightarrow> fn \<Rightarrow> state \<Rightarrow> state" where
  "progress p onProgress s =
     (let q = origin (promises s) p;
          fns = (case progress_fns (promises s q) of None \<Rightarrow> [] | Some l \<Rightarrow> l)
      in s\<lparr>promises := (promises s)(q := (promises s q)\<lparr>progress_fns := Some (fns @ [onProgress])\<rparr>)\<rparr>)"

text \<open>\<^verbatim>\<open>set.notify(value)\<close>.\<close>

definition notify :: "pid \<Rightarrow> val \<Rightarrow> state \<Rightarrow> state" where
  "notify p v s = defer_call (RunNotify (origin (promises s) p) v) s"

text \<open>\<^verbatim>\<open>set.then(onFulfilled, onRejected, onProgress)\<close>.\<close>

definition then_promise ::
  "pid \<Rightarrow> fn option \<Rightarrow> fn option \<Rightarrow> fn option \<Rightarrow> state \<Rightarrow> pid \<times> state" where
  "then_promise p onFulfilled onRejected onProgress s =
     (let (newPromise, s1) = pinkySwear s;
          s2 = s1\<lparr>promises := (promises s1)(newPromise :=
                 (promises s1 newPromise)\<lparr>forward := Some p\<rparr>)\<rparr>;
          callCallbacks = CallCallbacks p onFulfilled onRejected newPromise;
          s3 = (if pstate (promises s2 p) \<noteq> None
                then defer_call (RunCallback callCallbacks) s2
                else s2\<lparr>promises := (promises s2)(p :=
                       (promises s2 p)\<lparr>deferred := deferred (promises s2 p) @ [callCallbacks]\<rparr>)\<rparr>);
          s4 = (case onProgress of None \<Rightarrow> s3 | Some f \<Rightarrow> progress p f s3)
      in (newPromise, s4))"

text \<open>\<^verbatim>\<open>set.fin(func)\<close> returns the promise it was called on.\<close>

definition fin :: "pid \<Rightarrow> fn \<Rightarrow> state \<Rightarrow> pid \<times> state" where
  "fin p func s = (p, snd (then_promise p (Some func) (Some func) None s))"

definition get_promise :: "pid \<Rightarrow> string \<Rightarrow> state \<Rightarrow> pid \<times> state" where
  "get_promise p prop s = then_promise p (Some (GetFn prop)) None None s"

subsection \<open>Class File\<close>

text \<open>\<^verbatim>\<open>new File(id)\<close>.\<close>

definition File :: "string \<Rightarrow> state \<Rightarrow> fref \<times> state" where
  "File i s =
     (let this = (case metadata s i of
                    Some cd \<Rightarrow> \<lparr>file_id = i, is_cached = disk s i,
                                last_used_at = m_last_used_at cd, md5 = m_md5 cd,
                                pending = False, downloaded = False\<rparr>
                  | None \<Rightarrow> \<lparr>file_id = i, is_cached = False, last_used_at = 0, md5 = None,
                             pending = False, downloaded = False\<rparr>)
      in (next_file s, s\<lparr>files := (files s)(next_file s := this), next_file := Suc (next_file s)\<rparr>))"

definition idFromUrl :: "env \<Rightarrow> string \<Rightarrow> string" where
  "idFromUrl env u = md5HexDigest env u"

definition fromURL :: "env \<Rightarrow> string \<Rightarrow> state \<Rightarrow> fref \<times> state" where
  "fromURL env u s = File (idFromUrl env u) s"

definition updateLastUsedAt :: "fref \<Rightarrow> state \<Rightarrow> state" where
  "updateLastUsedAt f s = s\<lparr>files := (files s)(f := (files s f)\<lparr>last_used_at := now s\<rparr>)\<rparr>"

definition save :: "fref \<Rightarrow> state \<Rightarrow> state" where
  "save f s =
     s\<lparr>metadata := (metadata s)(file_id (files s f) \<mapsto>
          \<lparr>m_last_used_at = last_used_at (files s f), m_md5 = md5 (files s f)\<rparr>),
       files := (files s)(f := (files s f)\<lparr>is_cached := True\<rparr>)\<rparr>"

definition exists_file :: "fref \<Rightarrow> state \<Rightarrow> bool" where
  "exists_file f s = disk s (file_id (files s f))"

text \<open>The bytes of a value given to \<^verbatim>\<open>write\<close>.\<close>

fun blob :: "val \<Rightarrow> string" where
  "blob (DataV d) = d"
| "blob (Str d) = d"
| "blob _ = []"

text \<open>\<^verbatim>\<open>File.prototype.write\<close>: the result of the host's write is ignored and the file
  is looked for afterwards.\<close>

definition write_file :: "env \<Rightarrow> fref \<Rightarrow> val \<Rightarrow> state \<Rightarrow> bool \<times> state" where
  "write_file env f data s =
     (let i = file_id (files s f);
          s1 = s\<lparr>disk := (disk s)(i := disk s i \<or> fs_write env i (blob data))\<rparr>;
          s2 = s1\<lparr>files := (files s1)(f := (files s1 f)\<lparr>md5 := Some (md5HexDigest env (blob data))\<rparr>)\<rparr>
      in (exists_file f s2, s2))"

text \<open>\<^verbatim>\<open>File.prototype.expired\<close>.\<close>

definition expired :: "env \<Rightarrow> bool \<Rightarrow> fref \<Rightarrow> state \<Rightarrow> bool \<times> state" where
  "expired env invalidate f s =
     (let s1 = (if invalidate
                then save f (s\<lparr>files := (files s)(f := (files s f)\<lparr>last_used_at := 0\<rparr>)\<rparr>)
                else s)
      in (now s1 - last_used_at (files s1 f) > EXPIRATION_TIME env, s1))"

subsection \<open>The dispatch queue\<close>

definition requestDispatch :: "state \<Rightarrow> pid \<times> state" where
  "requestDispatch s =
     (let (waitForDispatch, s1) = pinkySwear s
      in (waitForDispatch, s1\<lparr>dispatch_queue := dispatch_queue s1 @ [waitForDispatch]\<rparr>))"

definition dispatchNextTask :: "env \<Rightarrow> state \<Rightarrow> state" where
  "dispatchNextTask env s =
     (if int (length (dispatch_queue s)) < MAX_ASYNC_TASKS env
      then (case dispatch_queue s of
              [] \<Rightarrow> s
            | task # rest \<Rightarrow> resolve task Undefined (s\<lparr>dispatch_queue := rest\<rparr>))
      else s)"

definition spawnHTTPClient :: "string \<Rightarrow> pid \<Rightarrow> state \<Rightarrow> state" where
  "spawnHTTPClient u pinkyPromise s =
     s\<lparr>http := http s @ [(u, pinkyPromise)], sent := sent s @ [u]\<rparr>"

subsection \<open>Calling a function\<close>

text \<open>Reading \<^verbatim>\<open>value[prop]\<close>. Only the properties the loader reads are there.\<close>

fun get_prop :: "val \<Rightarrow> string \<Rightarrow> outcome" where
  "get_prop Undefined prop = Throws TypeError"
| "get_prop (LoadEvent d) prop = Returns (if prop = ''source'' then HttpClientV d else Undefined)"
| "get_prop (HttpClientV d) prop =
     Returns (if prop = ''responseData'' then DataV d else Undefined)"
| "get_prop v prop = Returns Undefined"

fun first_arg :: "val list \<Rightarrow> val" where
  "first_arg [] = Undefined"
| "first_arg (v # vs) = v"

text \<open>\<^verbatim>\<open>f.apply(null, values)\<close>: what the function returns or throws, and the state it
  leaves.\<close>

fun apply_fn :: "env \<Rightarrow> fn \<Rightarrow> val list \<Rightarrow> state \<Rightarrow> outcome \<times> state" where
  "apply_fn env (User n) vs s = (user env n vs, s\<lparr>calls := calls s @ [(n, vs)]\<rparr>)"
| "apply_fn env (SpawnFn u) vs s =
     (let (waitForHttp, s1) = pinkySwear s
      in (Returns (PromiseV waitForHttp), spawnHTTPClient u waitForHttp s1))"
| "apply_fn env (GetFn prop) vs s = (get_prop (first_arg vs) prop, s)"
| "apply_fn env (WriteFn u f) vs s =
     (let (ok, s1) = write_file env f (first_arg vs) s
      in if \<not> ok then (Throws (WriteFailed u f), s1)
         else (Returns (FileV f),
               save f (updateLastUsedAt f
                 (s1\<lparr>files := (files s1)(f := (files s1 f)\<lparr>downloaded := True\<rparr>)\<rparr>))))"
| "apply_fn env (FinFn f) vs s =
     (Returns Undefined,
      dispatchNextTask env
        (s\<lparr>pending_tasks := (pending_tasks s)(file_id (files s f) := None),
           files := (files s)(f := (files s f)\<lparr>pending := False\<rparr>)\<rparr>))"
| "apply_fn env (AdoptFulfil p) vs s = (Returns Undefined, set_promise p (Some True) [first_arg vs] s)"
| "apply_fn env (AdoptReject p) vs s = (Returns Undefined, set_promise p (Some False) [first_arg vs] s)"
| "apply_fn env (AdoptNotify p) vs s = (Returns Undefined, notify p (first_arg vs) s)"

text \<open>\<^verbatim>\<open>callCallbacks\<close> of \<^verbatim>\<open>set.then\<close>. The \<^verbatim>\<open>catch\<close> turns whatever the \<^verbatim>\<open>try\<close> block
  throws into a rejection of \<^verbatim>\<open>newPromise\<close>.\<close>

definition callCallbacks :: "env \<Rightarrow> callback \<Rightarrow> state \<Rightarrow> state" where
  "callCallbacks env cb s =
     (case cb of CallCallbacks p onFulfilled onRejected newPromise \<Rightarrow>
        (case (if pstate (promises s p) = Some True then onFulfilled else onRejected) of
           Some f \<Rightarrow>
             (case apply_fn env f (pvalues (promises s p)) s of
                (Throws e, s1) \<Rightarrow> set_promise newPromise (Some False) [e] s1
              | (Returns r, s1) \<Rightarrow>
                  (case r of
                     PromiseV q \<Rightarrow>
                       snd (then_promise q (Some (AdoptFulfil newPromise))
                              (Some (AdoptReject newPromise)) (Some (AdoptNotify newPromise)) s1)
                   | _ \<Rightarrow> set_promise newPromise (Some True) [r] s1))
         | None \<Rightarrow> set_promise newPromise (pstate (promises s p)) (pvalues (promises s p)) s))"

text \<open>The loop of \<^verbatim>\<open>set\<close> over \<^verbatim>\<open>deferred\<close>.\<close>

fun run_deferred :: "env \<Rightarrow> callback list \<Rightarrow> state \<Rightarrow> state" where
  "run_deferred env [] s = s"
| "run_deferred env (cb # cbs) s = run_deferred env cbs (callCallbacks env cb s)"

text \<open>The loop of \<^verbatim>\<open>notify\<close> over \<^verbatim>\<open>progress_fns\<close>: a function that throws ends it.\<close>

fun run_progress :: "env \<Rightarrow> fn list \<Rightarrow> val \<Rightarrow> state \<Rightarrow> state" where
  "run_progress env [] v s = s"
| "run_progress env (f # fs) v s =
     (case apply_fn env f [v] s of
        (Throws e, s1) \<Rightarrow> s1
      | (Returns r, s1) \<Rightarrow> run_progress env fs v s1)"

definition run_task :: "env \<Rightarrow> task \<Rightarrow> state \<Rightarrow> state" where
  "run_task env t s =
     (case t of
        RunDeferred p \<Rightarrow> run_deferred env (deferred (promises s p)) s
      | RunCallback cb \<Rightarrow> callCallbacks env cb s
      | RunNotify p v \<Rightarrow>
          (case progress_fns (promises s p) of
             None \<Rightarrow> s
           | Some fns \<Rightarrow> run_progress env fns v s))"

subsection \<open>FileLoader.download\<close>

definition attachCallbacks :: "args \<Rightarrow> pid \<Rightarrow> state \<Rightarrow> pid \<times> state" where
  "attachCallbacks a p s =
     (if onload a \<noteq> None \<or> onerror a \<noteq> None \<or> ondatastream a \<noteq> None
      then then_promise p (map_option User (onload a)) (map_option User (onerror a))
             (map_option User (ondatastream a)) s
      else (p, s))"

text \<open>The last branch of \<^verbatim>\<open>download\<close>: the chain of promises of a new download.\<close>

definition start_download :: "env \<Rightarrow> args \<Rightarrow> fref \<Rightarrow> state \<Rightarrow> pid \<times> state" where
  "start_download env a f s =
     (let (t, s1) = requestDispatch s;
          (p1, s2) = then_promise t (Some (SpawnFn (url a))) None None s1;
          (p2, s3) = get_promise p1 ''source'' s2;
          (p3, s4) = get_promise p2 ''responseData'' s3;
          (p4, s5) = then_promise p3 (Some (WriteFn (url a) f)) None None s4;
          (waitingForDownload, s6) = fin p4 (FinFn f) s5;
          s7 = s6\<lparr>files := (files s6)(f := (files s6 f)\<lparr>pending := True\<rparr>)\<rparr>;
          s8 = s7\<lparr>pending_tasks := (pending_tasks s7)(file_id (files s7 f) \<mapsto> waitingForDownload)\<rparr>
      in attachCallbacks a waitingForDownload (dispatchNextTask env s8))"

definition download :: "env \<Rightarrow> args \<Rightarrow> state \<Rightarrow> pid \<times> state" where
  "download env a s =
     (let (f, s1) = fromURL env (url a) s
      in case pending_tasks s1 (file_id (files s1 f)) of
           Some p \<Rightarrow> attachCallbacks a p s1
         | None \<Rightarrow>
             if is_cached (files s1 f) \<and> \<not> fst (expired env False f s1)
             then (let s2 = save f (updateLastUsedAt f s1);
                       (waitingForPath, s3) = pinkySwear s2
                   in attachCallbacks a waitingForPath
                        (set_promise waitingForPath (Some True) [FileV f] s3))
             else if \<not> online s1
             then (let (offlinePromise, s2) = pinkySwear s1
                   in attachCallbacks a offlinePromise
                        (set_promise offlinePromise (Some False) [Str ''Network offline''] s2))
             else start_download env a f s1)"

subsection \<open>Turns\<close>

text \<open>
  What can happen next: a consumer calls \<^verbatim>\<open>download\<close>; the oldest function given to
  \<^verbatim>\<open>setTimeout\<close> runs; the HTTP client number \<open>i\<close> calls \<^verbatim>\<open>onload\<close>, \<^verbatim>\<open>onerror\<close> (after
  which it is finished) or \<^verbatim>\<open>ondatastream\<close>; the clock advances; the network goes on or
  off.
\<close>

datatype action =
    Download args
  | Timeout
  | HttpLoad nat string
  | HttpError nat string
  | HttpDataStream nat val
  | Clock nat
  | Network bool

definition remove_nth :: "nat \<Rightarrow> 'a list \<Rightarrow> 'a list" where
  "remove_nth i xs = take i xs @ drop (Suc i) xs"

definition step :: "env \<Rightarrow> action \<Rightarrow> state \<Rightarrow> state" where
  "step env a s =
     (case a of
        Download ar \<Rightarrow> snd (download env ar s)
      | Timeout \<Rightarrow>
          (case timers s of
             [] \<Rightarrow> s
           | t # ts \<Rightarrow> run_task env t (s\<lparr>timers := ts\<rparr>))
      | HttpLoad i d \<Rightarrow>
          (if i < length (http s)
           then resolve (snd (http s ! i)) (LoadEvent d) (s\<lparr>http := remove_nth i (http s)\<rparr>)
           else s)
      | HttpError i e \<Rightarrow>
          (if i < length (http s)
           then reject (snd (http s ! i)) (ErrorEvent e) (s\<lparr>http := remove_nth i (http s)\<rparr>)
           else s)
      | HttpDataStream i v \<Rightarrow>
          (if i < length (http s) then notify (snd (http s ! i)) v s else s)
      | Clock d \<Rightarrow> s\<lparr>now := now s + int d\<rparr>
      | Network b \<Rightarrow> s\<lparr>online := b\<rparr>)"

fun run :: "env \<Rightarrow> action list \<Rightarrow> state \<Rightarrow> state" where
  "run env [] s = s"
| "run env (a # as) s = run env as (step env a s)"

text \<open>The module just loaded: nothing in flight, with the stored metadata, the files
  on disk, the time and the network as the host has them.\<close>

definition init :: "(string \<Rightarrow> cache_data option) \<Rightarrow> (string \<Rightarrow> bool) \<Rightarrow> int \<Rightarrow> bool \<Rightarrow> state" where
  "init md dk t on =
     \<lparr>promises = (\<lambda>p. \<lparr>pstate = None, pvalues = [], deferred = [], progress_fns = None, forward = None\<rparr>),
      next_promise = 0, timers = [], metadata = md, disk = dk,
      files = (\<lambda>f. \<lparr>file_id = [], is_cached = False, last_used_at = 0, md5 = None,
                    pending = False, downloaded = False\<rparr>),
      next_file = 0, pending_tasks = (\<lambda>k. None), dispatch_queue = [], http = [],
      now = t, online = on, sent = [], calls = []\<rparr>"


subsection \<open>Concrete hosts and requests\<close>

text \<open>A host whose digest is the identity, where every write succeeds and consumer
  function \<open>n\<close> throws its first argument when \<open>n\<close> is odd and returns it otherwise.\<close>

definition host :: "int \<Rightarrow> env" where
  "host m = \<lparr>MAX_ASYNC_TASKS = m, EXPIRATION_TIME = 1000, md5HexDigest = (\<lambda>u. u),
             fs_write = (\<lambda>i d. True),
             user = (\<lambda>n vs. if odd n then Throws (first_arg vs) else Returns (first_arg vs))\<rparr>"

definition bare :: "string \<Rightarrow> args" where
  "bare u = \<lparr>url = u, onload = None, onerror = None, ondatastream = None\<rparr>"

definition fresh :: state where
  "fresh = init (\<lambda>k. None) (\<lambda>k. False) 0 True"

subsection \<open>The steps of \<^verbatim>\<open>then\<close> and of a new download\<close>

text \<open>The three things \<^verbatim>\<open>set.then\<close> does, one after the other: it creates
  \<^verbatim>\<open>newPromise\<close> with the replaced \<^verbatim>\<open>progress\<close> and \<^verbatim>\<open>notify\<close>, it defers or stores
  \<^verbatim>\<open>callCallbacks\<close>, and it registers \<^verbatim>\<open>onProgress\<close>.\<close>

definition derive :: "pid \<Rightarrow> state \<Rightarrow> state" where
  "derive p s =
     s\<lparr>promises := (promises s)(next_promise s :=
          \<lparr>pstate = None, pvalues = [], deferred = [], progress_fns = None, forward = Some p\<rparr>),
       next_promise := Suc (next_promise s)\<rparr>"

definition attach :: "pid \<Rightarrow> callback \<Rightarrow> state \<Rightarrow> state" where
  "attach p cb s =
     (if pstate (promises s p) \<noteq> None
      then defer_call (RunCallback cb) s
      else s\<lparr>promises := (promises s)(p :=
             (promises s p)\<lparr>deferred := deferred (promises s p) @ [cb]\<rparr>)\<rparr>)"

definition subscribe :: "pid \<Rightarrow> fn option \<Rightarrow> state \<Rightarrow> state" where
  "subscribe p onProgress s = (case onProgress of None \<Rightarrow> s | Some f \<Rightarrow> progress p f s)"

text \<open>The promises a new download creates, one after the other: the ticket of
  \<^verbatim>\<open>requestDispatch\<close>, then the five promises of the calls of \<^verbatim>\<open>then\<close>, \<^verbatim>\<open>get\<close>,
  \<^verbatim>\<open>get\<close>, \<^verbatim>\<open>then\<close> and \<^verbatim>\<open>fin\<close>, each called on the promise created just before
  (\<^verbatim>\<open>fin\<close> on the same promise as the \<^verbatim>\<open>then\<close> inside it).\<close>

definition chain :: "string \<Rightarrow> fref \<Rightarrow> state \<Rightarrow> state" where
  "chain u f s =
     snd (then_promise (Suc (Suc (Suc (Suc (next_promise s))))) (Some (FinFn f)) (Some (FinFn f)) None
       (snd (then_promise (Suc (Suc (Suc (next_promise s)))) (Some (WriteFn u f)) None None
         (snd (then_promise (Suc (Suc (next_promise s))) (Some (GetFn ''responseData'')) None None
           (snd (then_promise (Suc (next_promise s)) (Some (GetFn ''source'')) None None
             (snd (then_promise (next_promise s) (Some (SpawnFn u)) None None
               (snd (requestDispatch s)))))))))))"

text \<open>The two assignments of \<^verbatim>\<open>download\<close> after the chain is built.\<close>

definition mark_pending :: "fref \<Rightarrow> pid \<Rightarrow> state \<Rightarrow> state" where
  "mark_pending f w s =
     s\<lparr>files := (files s)(f := (files s f)\<lparr>pending := True\<rparr>),
       pending_tasks := (pending_tasks s)(file_id (files s f) \<mapsto> w)\<rparr>"

text \<open>A settled promise keeps its state and its values from \<open>s\<close> to \<open>s'\<close>, and no
  promise disappears.\<close>

definition kept :: "state \<Rightarrow> state \<Rightarrow> bool" where
  "kept s s' \<longleftrightarrow>
     next_promise s \<le> next_promise s' \<and>
     (\<forall>p<next_promise s. pstate (promises s p) \<noteq> None \<longrightarrow>
        pstate (promises s' p) = pstate (promises s p) \<and>
        pvalues (promises s' p) = pvalues (promises s p))"

text \<open>Every download in flight in \<open>s'\<close> was in flight in \<open>s\<close>, with the same promise.\<close>

definition no_new_pending :: "state \<Rightarrow> state \<Rightarrow> bool" where
  "no_new_pending s s' \<longleftrightarrow>
     (\<forall>k p. pending_tasks s' k = Some p \<longrightarrow> pending_tasks s k = Some p)"

definition no_callbacks :: "args \<Rightarrow> bool" where
  "no_callbacks a \<longleftrightarrow> onload a = None \<and> onerror a = None \<and> ondatastream a = None"

text \<open>Runs of the loader from its fresh state.\<close>

definition three_downloads :: state where
  "three_downloads =
     run (host 2) [Download (bare ''a''), Download (bare ''b''), Download (bare ''c''),
                   Timeout, Timeout, Timeout] fresh"

definition failed_download :: state where
  "failed_download =
     run (host 10) [Download (bare ''a''), Timeout, HttpError 0 ''timeout'',
                    Timeout, Timeout, Timeout, Timeout, Timeout] fresh"

definition loaded_download :: state where
  "loaded_download =
     run (host 10) [Download (bare ''a''), Timeout, HttpLoad 0 ''data'',
                    Timeout, Timeout, Timeout, Timeout, Timeout, Clock 5] fresh"

definition cached_download :: state where
  "cached_download = run (host 10) [Timeout] loaded_download"

text \<open>The test of \<^verbatim>\<open>download\<close> for a cache hit, on the stored state: \<^verbatim>\<open>new File(id)\<close>
  is cached when the metadata has a record and the file exists, and it is not expired.\<close>

definition fresh_in_cache :: "env \<Rightarrow> string \<Rightarrow> state \<Rightarrow> bool" where
  "fresh_in_cache env k s =
     (case metadata s k of
        None \<Rightarrow> False
      | Some cd \<Rightarrow> disk s k \<and> \<not> now s - m_last_used_at cd > EXPIRATION_TIME env)"

definition with_callbacks :: "string \<Rightarrow> args" where
  "with_callbacks u = \<lparr>url = u, onload = Some 0, onerror = Some 1, ondatastream = Some 2\<rparr>"


text \<open>What no code of the loader undoes, from \<open>s\<close> to \<open>s'\<close>: promises and files are
  only created; for a promise that exists, \<^verbatim>\<open>deferred\<close> and \<^verbatim>\<open>progress_fns\<close> only have
  functions added at their ends, the replaced \<^verbatim>\<open>progress\<close> and \<^verbatim>\<open>notify\<close> stay, a
  settled state and its values stay, and when it becomes settled its loop over
  \<^verbatim>\<open>deferred\<close> is among the timers; a file keeps its id; timers, requests sent and
  calls of consumer functions are only added.\<close>

definition grows :: "state \<Rightarrow> state \<Rightarrow> bool" where
  "grows s s' \<longleftrightarrow>
     next_promise s \<le> next_promise s' \<and> next_file s \<le> next_file s' \<and>
     (\<forall>p<next_promise s.
        prefix (deferred (promises s p)) (deferred (promises s' p)) \<and>
        forward (promises s' p) = forward (promises s p) \<and>
        (pstate (promises s p) \<noteq> None \<longrightarrow>
           pstate (promises s' p) = pstate (promises s p) \<and>
           pvalues (promises s' p) = pvalues (promises s p)) \<and>
        (pstate (promises s' p) \<noteq> None \<longrightarrow>
           pstate (promises s p) \<noteq> None \<or> RunDeferred p \<in> set (timers s')) \<and>
        (\<forall>l. progress_fns (promises s p) = Some l \<longrightarrow>
           (\<exists>l'. progress_fns (promises s' p) = Some (l @ l')))) \<and>
     (\<forall>f<next_file s. file_id (files s' f) = file_id (files s f)) \<and>
     prefix (timers s) (timers s') \<and> prefix (sent s) (sent s') \<and> prefix (calls s) (calls s')"

text \<open>The states the loader can be in: it starts from the module just loaded and goes on
  by turns.\<close>

inductive reachable :: "env \<Rightarrow> state \<Rightarrow> bool" for env :: env where
  loaded: "reachable env (init md dk t on)"
| turn: "reachable env s \<Longrightarrow> reachable env (step env a s)"

text \<open>Every download in flight has the function given to \<^verbatim>\<open>fin\<close> as the first
  continuation of its promise, for a \<^verbatim>\<open>File\<close> of that id; and once the promise is
  settled, its loop over \<^verbatim>\<open>deferred\<close> is among the timers.\<close>

definition hooked :: "state \<Rightarrow> bool" where
  "hooked s \<longleftrightarrow>
     (\<forall>k p. pending_tasks s k = Some p \<longrightarrow>
        p < next_promise s \<and>
        (\<exists>f q rest. f < next_file s \<and> file_id (files s f) = k \<and>
           deferred (promises s p) =
             CallCallbacks p (Some (FinFn f)) (Some (FinFn f)) q # rest) \<and>
        (pstate (promises s p) \<noteq> None \<longrightarrow> RunDeferred p \<in> set (timers s)))"

text \<open>The promise a continuation was attached to, and the promise it settles.\<close>

fun cb_src :: "callback \<Rightarrow> pid" where
  "cb_src (CallCallbacks p a b n) = p"

fun cb_new :: "callback \<Rightarrow> pid" where
  "cb_new (CallCallbacks p a b n) = n"

text \<open>The promise a handler settles, if it is one of the functions of \<^verbatim>\<open>callCallbacks\<close>,
  is among the first \<open>n\<close> promises; so is the promise a continuation settles.\<close>

fun fn_ok :: "nat \<Rightarrow> fn option \<Rightarrow> bool" where
  "fn_ok n (Some (AdoptFulfil q)) = (q < n)"
| "fn_ok n (Some (AdoptReject q)) = (q < n)"
| "fn_ok n h = True"

fun cb_ok :: "nat \<Rightarrow> callback \<Rightarrow> bool" where
  "cb_ok m (CallCallbacks p a b n) = (n < m \<and> fn_ok m a \<and> fn_ok m b)"

text \<open>A timer is in order when the promise whose continuations it runs exists and is
  settled.\<close>

fun task_ok :: "state \<Rightarrow> task \<Rightarrow> bool" where
  "task_ok s (RunDeferred p) = (p < next_promise s \<and> pstate (promises s p) \<noteq> None)"
| "task_ok s (RunCallback cb) =
     (cb_src cb < next_promise s \<and> pstate (promises s (cb_src cb)) \<noteq> None \<and>
      cb_ok (next_promise s) cb)"
| "task_ok s (RunNotify p v) = True"

text \<open>The functions registered for progress are consumer functions or the third
  function \<^verbatim>\<open>callCallbacks\<close> passes to \<^verbatim>\<open>r.then\<close>.\<close>

fun progress_ok :: "fn \<Rightarrow> bool" where
  "progress_ok (User n) = True"
| "progress_ok (AdoptNotify q) = True"
| "progress_ok f = False"

text \<open>The state is in order: a promise that does not exist yet is pending; the
  continuations stored on a promise were attached to it; every timer is in order; the
  tickets and the promises of the HTTP clients exist.\<close>

definition tidy :: "state \<Rightarrow> bool" where
  "tidy s \<longleftrightarrow>
     (\<forall>p\<ge>next_promise s. pstate (promises s p) = None) \<and>
     (\<forall>p<next_promise s. \<forall>cb\<in>set (deferred (promises s p)).
        cb_src cb = p \<and> cb_ok (next_promise s) cb) \<and>
     (\<forall>t\<in>set (timers s). task_ok s t) \<and>
     (\<forall>p\<in>set (dispatch_queue s). p < next_promise s) \<and>
     (\<forall>c\<in>set (http s). snd c < next_promise s) \<and>
     (\<forall>p l. progress_fns (promises s p) = Some l \<longrightarrow> (\<forall>f\<in>set l. progress_ok f))"

text \<open>The continuations that are stored on a promise that exists or wait as timers.\<close>

definition stored :: "state \<Rightarrow> callback set" where
  "stored s =
     {cb. \<exists>p<next_promise s. cb \<in> set (deferred (promises s p))} \<union>
     {cb. RunCallback cb \<in> set (timers s)}"

text \<open>The first two functions \<^verbatim>\<open>callCallbacks\<close> passes to \<^verbatim>\<open>r.then\<close> settle
  \<^verbatim>\<open>newPromise\<close>, which \<^verbatim>\<open>then\<close> derived from a promise that is settled by now. A
  continuation settles the promise that \<^verbatim>\<open>then\<close> derived when it was attached.\<close>

fun adopt_linked :: "state \<Rightarrow> fn option \<Rightarrow> bool" where
  "adopt_linked s (Some (AdoptFulfil q)) =
     (\<exists>p<next_promise s. forward (promises s q) = Some p \<and> pstate (promises s p) \<noteq> None)"
| "adopt_linked s (Some (AdoptReject q)) =
     (\<exists>p<next_promise s. forward (promises s q) = Some p \<and> pstate (promises s p) \<noteq> None)"
| "adopt_linked s h = True"

fun cb_linked :: "state \<Rightarrow> callback \<Rightarrow> bool" where
  "cb_linked s (CallCallbacks p a b n) =
     (forward (promises s n) = Some p \<and> adopt_linked s a \<and> adopt_linked s b)"

text \<open>How the promises hang together: every stored continuation is linked as above; a
  derived promise is settled only after the promise it was derived from; a waiting
  ticket is pending and not derived, and is in the queue once; the promise of an HTTP
  client that has not finished is pending, not derived and no ticket, and no two
  clients share one.\<close>

definition linked :: "state \<Rightarrow> bool" where
  "linked s \<longleftrightarrow>
     (\<forall>cb\<in>stored s. cb_linked s cb) \<and>
     (\<forall>q<next_promise s. \<forall>p. pstate (promises s q) \<noteq> None \<longrightarrow>
        forward (promises s q) = Some p \<longrightarrow> pstate (promises s p) \<noteq> None) \<and>
     (\<forall>t\<in>set (dispatch_queue s).
        forward (promises s t) = None \<and> pstate (promises s t) = None) \<and>
     distinct (dispatch_queue s) \<and>
     (\<forall>c\<in>set (http s). forward (promises s (snd c)) = None \<and>
        pstate (promises s (snd c)) = None \<and> snd c \<notin> set (dispatch_queue s)) \<and>
     distinct (map snd (http s))"

text \<open>What a call of \<^verbatim>\<open>dispatchNextTask\<close> leaves of the queue of tickets when nobody
  waits, or when \<^verbatim>\<open>MAX_ASYNC_TASKS\<close> is at most 1: the same queue.\<close>

definition queue_kept :: "env \<Rightarrow> state \<Rightarrow> state \<Rightarrow> bool" where
  "queue_kept env s s' \<longleftrightarrow>
     (dispatch_queue s = [] \<or> MAX_ASYNC_TASKS env \<le> 1 \<longrightarrow> dispatch_queue s' = dispatch_queue s)"



text \<open>The promises the timers \<open>RunCallback\<close> settle, and the promises whose loops over
  \<^verbatim>\<open>deferred\<close> wait as timers.\<close>

definition task_targets :: "task \<Rightarrow> pid list" where
  "task_targets t = (case t of RunCallback cb \<Rightarrow> [cb_new cb] | _ \<Rightarrow> [])"

definition task_runs :: "task \<Rightarrow> pid list" where
  "task_runs t = (case t of RunDeferred p \<Rightarrow> [p] | _ \<Rightarrow> [])"

text \<open>Nothing is stored twice: a promise is settled by one continuation only, which is
  stored once, and the loop over the continuations of a promise waits at most once.\<close>

definition unique :: "state \<Rightarrow> bool" where
  "unique s \<longleftrightarrow>
     (\<forall>p<next_promise s. distinct (map cb_new (deferred (promises s p)))) \<and>
     distinct (concat (map task_targets (timers s))) \<and>
     distinct (concat (map task_runs (timers s))) \<and>
     (\<forall>cb. RunCallback cb \<in> set (timers s) \<longrightarrow>
        cb_new cb \<notin> cb_new ` set (deferred (promises s (cb_src cb))))"

text \<open>The functions of a continuation, and whether one of them is one of the two
  functions with which \<^verbatim>\<open>callCallbacks\<close> settles the promise \<open>x\<close>.\<close>

fun handlers :: "callback \<Rightarrow> fn set" where
  "handlers (CallCallbacks p a b n) = set_option a \<union> set_option b"

definition adopts :: "callback \<Rightarrow> pid \<Rightarrow> bool" where
  "adopts cb x \<longleftrightarrow> AdoptFulfil x \<in> handlers cb \<or> AdoptReject x \<in> handlers cb"

text \<open>The continuations that have still to run: those that wait as timers, and those
  stored on a promise that is pending or whose loop over \<^verbatim>\<open>deferred\<close> waits as a timer.\<close>

definition live :: "state \<Rightarrow> callback set" where
  "live s =
     {cb. RunCallback cb \<in> set (timers s)} \<union>
     {cb. \<exists>p<next_promise s. cb \<in> set (deferred (promises s p)) \<and>
            (pstate (promises s p) = None \<or> RunDeferred p \<in> set (timers s))}"

text \<open>The download of file id \<open>k\<close> is in flight and its promise was derived, in three
  steps, from the promise \<open>p1\<close>, which was derived itself: \<open>p1\<close> is the promise of
  \<^verbatim>\<open>requestDispatch().then(...)\<close> in \<^verbatim>\<open>download\<close>, settled by the HTTP client.\<close>

definition chain_to :: "state \<Rightarrow> string \<Rightarrow> pid \<Rightarrow> bool" where
  "chain_to s k p1 \<longleftrightarrow>
     (\<exists>p4<next_promise s. \<exists>p3<next_promise s. \<exists>p2<next_promise s.
        pending_tasks s k = Some p4 \<and> forward (promises s p4) = Some p3 \<and>
        forward (promises s p3) = Some p2 \<and> forward (promises s p2) = Some p1) \<and>
     p1 < next_promise s \<and> forward (promises s p1) \<noteq> None"

text \<open>A continuation that has still to run, among the continuations \<open>A\<close>: the promise it
  settles is pending and no continuation of \<open>A\<close> settles that promise in its place; if it
  starts an HTTP client for a URL, the download of that URL's file id is in flight and
  hangs on the promise it settles; if it is the one given to \<^verbatim>\<open>fin\<close> for a \<^verbatim>\<open>File\<close>, the
  download of that file's id is in flight with the promise it is the first continuation
  of.\<close>

definition live_ok :: "env \<Rightarrow> state \<Rightarrow> callback set \<Rightarrow> callback \<Rightarrow> bool" where
  "live_ok env s A cb \<longleftrightarrow>
     pstate (promises s (cb_new cb)) = None \<and>
     (\<forall>cb'\<in>A. \<not> adopts cb' (cb_new cb)) \<and>
     (\<forall>u. SpawnFn u \<in> handlers cb \<longrightarrow> chain_to s (idFromUrl env u) (cb_new cb)) \<and>
     (\<forall>f. FinFn f \<in> handlers cb \<longrightarrow>
        f < next_file s \<and> cb_src cb < next_promise s \<and>
        pending_tasks s (file_id (files s f)) = Some (cb_src cb) \<and>
        (\<exists>rest. deferred (promises s (cb_src cb)) = cb # rest))"

text \<open>An HTTP client that has not finished, among the continuations \<open>L\<close> that have still
  to run and all the continuations \<open>A\<close>: the download of its URL's file id is in flight and
  hangs on a pending promise \<open>p1\<close>, which no continuation that has still to run settles,
  and which only continuations of the client's promise settle in its place; there is
  one.\<close>

definition client_ok ::
  "env \<Rightarrow> state \<Rightarrow> callback set \<Rightarrow> callback set \<Rightarrow> string \<times> pid \<Rightarrow> bool" where
  "client_ok env s L A c \<longleftrightarrow>
     (\<exists>p1. chain_to s (idFromUrl env (fst c)) p1 \<and> pstate (promises s p1) = None \<and>
        (\<forall>cb\<in>L. cb_new cb \<noteq> p1) \<and>
        (\<forall>cb\<in>A. adopts cb p1 \<longrightarrow> cb_src cb = snd c) \<and>
        (\<exists>cb\<in>set (deferred (promises s (snd c))). adopts cb p1))"

text \<open>The state in the middle of a turn that has still to run the continuations \<open>cbs\<close>
  (none between two turns).\<close>

definition dedup :: "env \<Rightarrow> state \<Rightarrow> callback list \<Rightarrow> bool" where
  "dedup env s cbs \<longleftrightarrow>
     (\<forall>cb\<in>set cbs \<union> live s. live_ok env s (set cbs \<union> stored s) cb) \<and>
     (\<forall>c\<in>set (http s). client_ok env s (set cbs \<union> live s) (set cbs \<union> stored s) c)"

text \<open>The continuations a turn has still to run were attached to promises that are
  settled; they settle different promises, which no other continuation that has still
  to run settles.\<close>

definition batch_ok :: "state \<Rightarrow> callback list \<Rightarrow> bool" where
  "batch_ok s cbs \<longleftrightarrow>
     distinct (map cb_new cbs) \<and>
     (\<forall>cb\<in>set cbs.
        (\<forall>cb'\<in>live s. cb_new cb' \<noteq> cb_new cb) \<and> cb_ok (next_promise s) cb \<and>
        cb_src cb < next_promise s \<and> pstate (promises s (cb_src cb)) \<noteq> None \<and>
        cb_linked s cb)"

text \<open>From \<open>s\<close> to \<open>s'\<close> nothing is undone, the continuations \<open>N\<close> are new, each for a new
  promise that is pending in \<open>s'\<close>, and only promises of \<open>X\<close> became settled.\<close>

definition moves :: "state \<Rightarrow> state \<Rightarrow> callback set \<Rightarrow> pid set \<Rightarrow> bool" where
  "moves s s' N X \<longleftrightarrow>
     grows s s' \<and> live s' \<subseteq> live s \<union> N \<and> stored s' \<subseteq> stored s \<union> N \<and>
     (\<forall>cb\<in>N. next_promise s \<le> cb_new cb \<and> cb_new cb < next_promise s' \<and>
        pstate (promises s' (cb_new cb)) = None) \<and>
     (\<forall>p. pstate (promises s' p) \<noteq> None \<longrightarrow> pstate (promises s p) \<noteq> None \<or> p \<in> X)"

text \<open>The function \<^verbatim>\<open>callCallbacks\<close> calls.\<close>

definition picked :: "state \<Rightarrow> callback \<Rightarrow> fn option" where
  "picked s cb =
     (case cb of CallCallbacks p a b n \<Rightarrow> if pstate (promises s p) = Some True then a else b)"

text \<open>The continuations of the chain of a new download whose ticket is promise \<open>n\<close>.\<close>

definition chain_cbs :: "string \<Rightarrow> fref \<Rightarrow> pid \<Rightarrow> callback set" where
  "chain_cbs u f n =
     {CallCallbacks n (Some (SpawnFn u)) None (Suc n),
      CallCallbacks (Suc n) (Some (GetFn ''source'')) None (Suc (Suc n)),
      CallCallbacks (Suc (Suc n)) (Some (GetFn ''responseData'')) None (Suc (Suc (Suc n))),
      CallCallbacks (Suc (Suc (Suc n))) (Some (WriteFn u f)) None (Suc (Suc (Suc (Suc n)))),
      CallCallbacks (Suc (Suc (Suc (Suc n)))) (Some (FinFn f)) (Some (FinFn f))
        (Suc (Suc (Suc (Suc (Suc n)))))}"

text \<open>A continuation that starts an HTTP client for a URL of file id \<open>k\<close> when it runs
  (the function given to \<^verbatim>\<open>requestDispatch().then\<close> in \<^verbatim>\<open>download\<close>), and the HTTP
  clients for file id \<open>k\<close> that have not finished.\<close>

definition starts :: "env \<Rightarrow> string \<Rightarrow> callback \<Rightarrow> bool" where
  "starts env k cb \<longleftrightarrow> (\<exists>u. SpawnFn u \<in> handlers cb \<and> idFromUrl env u = k)"

definition clients :: "env \<Rightarrow> string \<Rightarrow> state \<Rightarrow> (string \<times> pid) list" where
  "clients env k s = filter (\<lambda>c. idFromUrl env (fst c) = k) (http s)"

text \<open>Two downloads of one URL, the second with callbacks, and the turn of the first
  timer.\<close>

definition two_downloads :: state where
  "two_downloads =
     run (host 10) [Download (bare ''a''), Download (with_callbacks ''a''), Timeout] fresh"

section \<open>Evaluation\<close>

lemma fst_pinkySwear [simp]: "fst (pinkySwear s) = next_promise s"
  by (simp add: pinkySwear_def)

lemma derive_eq:
  "(snd (pinkySwear s))\<lparr>promises := (promises (snd (pinkySwear s)))(fst (pinkySwear s) :=
       (promises (snd (pinkySwear s)) (fst (pinkySwear s)))\<lparr>forward := Some p\<rparr>)\<rparr> = derive p s"
  by (simp add: pinkySwear_def derive_def)

lemma then_promise_steps:
  "then_promise p a b c s =
     (next_promise s, subscribe p c (attach p (CallCallbacks p a b (next_promise s)) (derive p s)))"
  unfolding then_promise_def Let_def case_prod_unfold derive_eq
  by (cases c) (simp_all add: attach_def subscribe_def)

lemma fst_then_promise [simp]: "fst (then_promise p a b c s) = next_promise s"
  by (simp add: then_promise_steps)

lemma snd_then_promise:
  "snd (then_promise p a b c s) =
     subscribe p c (attach p (CallCallbacks p a b (next_promise s)) (derive p s))"
  by (simp add: then_promise_steps)

lemma then_promise_other_fields [simp]:
  "next_promise (snd (then_promise p a b c s)) = Suc (next_promise s)"
  "files (snd (then_promise p a b c s)) = files s"
  "next_file (snd (then_promise p a b c s)) = next_file s"
  "pending_tasks (snd (then_promise p a b c s)) = pending_tasks s"
  "dispatch_queue (snd (then_promise p a b c s)) = dispatch_queue s"
  "http (snd (then_promise p a b c s)) = http s"
  "sent (snd (then_promise p a b c s)) = sent s"
  "calls (snd (then_promise p a b c s)) = calls s"
  "metadata (snd (then_promise p a b c s)) = metadata s"
  "disk (snd (then_promise p a b c s)) = disk s"
  "now (snd (then_promise p a b c s)) = now s"
  "online (snd (then_promise p a b c s)) = online s"
  by (simp_all add: snd_then_promise subscribe_def attach_def derive_def progress_def
      defer_call_def Let_def split: option.splits)

lemma requestDispatch_steps:
  "requestDispatch s =
     (next_promise s,
      s\<lparr>promises := (promises s)(next_promise s :=
           \<lparr>pstate = None, pvalues = [], deferred = [], progress_fns = None, forward = None\<rparr>),
        next_promise := Suc (next_promise s),
        dispatch_queue := dispatch_queue s @ [next_promise s]\<rparr>)"
  by (simp add: requestDispatch_def pinkySwear_def)

lemma start_download_steps:
  "start_download env a f s =
     attachCallbacks a (Suc (Suc (Suc (Suc (next_promise s)))))
       (dispatchNextTask env
         (mark_pending f (Suc (Suc (Suc (Suc (next_promise s))))) (chain (url a) f s)))"
  unfolding start_download_def get_promise_def fin_def Let_def case_prod_unfold fst_conv snd_conv
    chain_def
  by (simp add: requestDispatch_steps mark_pending_def)

text \<open>The equations the simplifier evaluates a concrete run with: every call is unfolded
  once its arguments are evaluated.\<close>

lemmas eval_defs =
  step_def download_def attachCallbacks_def run_task_def callCallbacks_def
  dispatchNextTask_def spawnHTTPClient_def expired_def write_file_def
  exists_file_def save_def updateLastUsedAt_def fromURL_def idFromUrl_def File_def
  notify_def progress_def resolve_def reject_def
  set_promise_def pinkySwear_def defer_call_def remove_nth_def origin.simps

lemmas eval =
  eval_defs [unfolded Let_def case_prod_unfold] start_download_steps snd_then_promise
  requestDispatch_steps derive_def attach_def subscribe_def mark_pending_def chain_def
  host_def bare_def with_callbacks_def fresh_def init_def

section \<open>Cache entries\<close>

text \<open>
  Claim C10. \<^verbatim>\<open>expired(true)\<close> on any \<^verbatim>\<open>File\<close>, whatever its fields and whether or not
  its bytes are on disk, calls \<^verbatim>\<open>save()\<close>: afterwards \<^verbatim>\<open>is_cached\<close> is true, the
  entry's \<^verbatim>\<open>last_used_at\<close> is 0, and the metadata holds a record for the file's id with
  \<^verbatim>\<open>last_used_at\<close> 0 and the entry's MD5. The call answers whether the current time
  exceeds the expiration time.
\<close>

theorem expired_invalidate_saves:
  "is_cached (files (snd (expired env True f s)) f) \<and>
   last_used_at (files (snd (expired env True f s)) f) = 0 \<and>
   metadata (snd (expired env True f s)) (file_id (files s f)) =
     Some \<lparr>m_last_used_at = 0, m_md5 = md5 (files s f)\<rparr> \<and>
   fst (expired env True f s) = (now s > EXPIRATION_TIME env)"
  by (simp add: expired_def save_def Let_def)

section \<open>Settled promises stay as they are\<close>

lemma kept_refl [simp]: "kept s s"
  by (simp add: kept_def)

lemma kept_trans: "kept s s1 \<Longrightarrow> kept s1 s2 \<Longrightarrow> kept s s2"
  unfolding kept_def by (metis (no_types, lifting) le_trans less_le_trans)

lemma kept_pinkySwear: "kept s (snd (pinkySwear s))"
  by (simp add: kept_def pinkySwear_def)

lemma kept_set_promise: "kept s (set_promise p b vs s)"
  by (simp add: kept_def set_promise_def defer_call_def)

lemma kept_progress: "kept s (progress p f s)"
  by (simp add: kept_def progress_def Let_def)

lemma kept_notify: "kept s (notify p v s)"
  by (simp add: kept_def notify_def defer_call_def)

lemma kept_then_promise: "kept s (snd (then_promise p a b c s))"
  by (auto simp: kept_def snd_then_promise subscribe_def attach_def derive_def defer_call_def
      progress_def Let_def split: option.splits)

lemma kept_dispatchNextTask: "kept s (dispatchNextTask env s)"
  by (auto simp: kept_def dispatchNextTask_def resolve_def set_promise_def defer_call_def
      split: list.splits)

lemma kept_other_fields [simp]:
  "kept s (s'\<lparr>files := fs\<rparr>) = kept s s'"
  "kept s (s'\<lparr>pending_tasks := pt\<rparr>) = kept s s'"
  "kept s (s'\<lparr>timers := ts\<rparr>) = kept s s'"
  "kept s (s'\<lparr>http := h\<rparr>) = kept s s'"
  "kept s (s'\<lparr>now := n\<rparr>) = kept s s'"
  "kept s (s'\<lparr>online := b\<rparr>) = kept s s'"
  "kept s (s'\<lparr>metadata := m\<rparr>) = kept s s'"
  "kept s (s'\<lparr>disk := d\<rparr>) = kept s s'"
  "kept s (s'\<lparr>calls := c\<rparr>) = kept s s'"
  "kept s (s'\<lparr>sent := se\<rparr>) = kept s s'"
  "kept s (s'\<lparr>next_file := nf\<rparr>) = kept s s'"
  by (simp_all add: kept_def)

lemma kept_apply_fn: "kept s (snd (apply_fn env f vs s))"
proof (cases f)
  case (FinFn x)
  from kept_trans [OF _ kept_dispatchNextTask] show ?thesis using FinFn by simp
qed (auto simp: kept_def pinkySwear_def spawnHTTPClient_def write_file_def save_def
     updateLastUsedAt_def set_promise_def defer_call_def notify_def Let_def split_def)

lemma kept_callCallbacks: "kept s (callCallbacks env cb s)"
proof (cases cb)
  case (CallCallbacks p onF onR np)
  show ?thesis
  proof (cases "if pstate (promises s p) = Some True then onF else onR")
    case None
    then show ?thesis using CallCallbacks by (simp add: callCallbacks_def kept_set_promise)
  next
    case (Some f)
    obtain r s1 where a: "apply_fn env f (pvalues (promises s p)) s = (r, s1)"
      by (cases "apply_fn env f (pvalues (promises s p)) s")
    then have k1: "kept s s1"
      using kept_apply_fn [of s env f "pvalues (promises s p)"] by simp
    have "kept s1 (callCallbacks env cb s)"
      using CallCallbacks Some a
      by (auto simp: callCallbacks_def kept_set_promise kept_then_promise
          split: outcome.splits val.splits)
    then show ?thesis using k1 kept_trans by blast
  qed
qed

lemma kept_run_deferred: "kept s (run_deferred env cbs s)"
proof (induction cbs arbitrary: s)
  case Nil then show ?case by simp
next
  case (Cons cb cbs)
  from kept_trans [OF kept_callCallbacks Cons] show ?case by simp
qed

lemma kept_run_progress: "kept s (run_progress env fs v s)"
proof (induction fs arbitrary: s)
  case Nil then show ?case by simp
next
  case (Cons f fs)
  obtain r s1 where a: "apply_fn env f [v] s = (r, s1)" by (cases "apply_fn env f [v] s")
  then have "kept s s1" using kept_apply_fn [of s env f "[v]"] by simp
  then show ?case using Cons [of s1] a kept_trans by (cases r) auto
qed

lemma kept_run_task: "kept s (run_task env t s)"
  by (cases t) (auto simp: run_task_def kept_run_deferred kept_callCallbacks kept_run_progress
      split: option.splits)

lemma kept_attachCallbacks: "kept s (snd (attachCallbacks a p s))"
  by (simp add: attachCallbacks_def kept_then_promise)

lemma kept_File: "kept s (snd (File i s))"
  by (simp add: File_def kept_def Let_def)

lemma kept_requestDispatch: "kept s (snd (requestDispatch s))"
  by (simp add: requestDispatch_def pinkySwear_def kept_def)

lemma kept_mark_pending [simp]: "kept s (mark_pending f w s') = kept s s'"
  by (simp add: mark_pending_def)

lemmas kept_after =
  kept_trans [OF _ kept_pinkySwear] kept_trans [OF _ kept_set_promise]
  kept_trans [OF _ kept_then_promise] kept_trans [OF _ kept_dispatchNextTask]
  kept_trans [OF _ kept_attachCallbacks] kept_trans [OF _ kept_requestDispatch]
  kept_trans [OF _ kept_File] kept_trans [OF _ kept_run_task] kept_trans [OF _ kept_notify]

lemma kept_start_download: "kept s (snd (start_download env a f s))"
  unfolding start_download_steps chain_def
  by (intro kept_after | simp)+

lemma kept_download: "kept s (snd (download env a s))"
  unfolding download_def Let_def case_prod_unfold fromURL_def
  by (auto split: option.splits simp: save_def updateLastUsedAt_def
      intro!: kept_after kept_trans [OF _ kept_start_download])

lemma kept_step: "kept s (step env a s)"
  by (cases a) (auto simp: step_def kept_download resolve_def reject_def
      split: list.splits intro!: kept_after)

lemma kept_run: "kept s (run env as s)"
proof (induction as arbitrary: s)
  case Nil then show ?case by simp
next
  case (Cons a as)
  from kept_trans [OF kept_step Cons] show ?case by simp
qed

section \<open>Futures\<close>

text \<open>
  Claim C5. Settling is single-assignment. On a promise that is already settled,
  \<^verbatim>\<open>set\<close> changes nothing at all, whatever state and values it is given; and whatever
  the loader and its host do afterwards (any sequence of turns), a settled promise keeps
  its state and its values.
\<close>

theorem settle_once:
  assumes "pstate (promises s p) = Some b"
  shows "set_promise p newState newValues s = s \<and>
         (p < next_promise s \<longrightarrow>
            pstate (promises (run env acts s) p) = Some b \<and>
            pvalues (promises (run env acts s) p) = pvalues (promises s p))"
  using assms kept_run [of s env acts] by (simp add: set_promise_def kept_def)

theorem settle_once_witness:
  "pstate (promises failed_download 4) = Some False \<and>
   set_promise 4 (Some True) [Undefined] failed_download = failed_download \<and>
   pstate (promises (run (host 10) [Timeout, Download (bare ''a'')] failed_download) 4) = Some False \<and>
   pvalues (promises (run (host 10) [Timeout, Download (bare ''a'')] failed_download) 4) =
     [ErrorEvent ''timeout'']"
proof -
  have a: "pstate (promises failed_download 4) = Some False"
    and b: "4 < next_promise failed_download"
    and c: "pvalues (promises failed_download 4) = [ErrorEvent ''timeout'']"
    unfolding failed_download_def by (simp_all add: eval)
  from settle_once [OF a, of "Some True" "[Undefined]" "host 10" "[Timeout, Download (bare ''a'')]"] a b c
  show ?thesis by simp
qed

lemma apply_fn_throws_promises:
  "fst (apply_fn env f vs s) = Throws e \<Longrightarrow>
   promises (snd (apply_fn env f vs s)) = promises s \<and>
   timers (snd (apply_fn env f vs s)) = timers s"
  by (cases f) (auto simp: write_file_def Let_def split_def split: if_splits)

text \<open>
  Claim C9. When \<^verbatim>\<open>callCallbacks\<close> runs for a settled promise and the handler it picks
  (\<^verbatim>\<open>onFulfilled\<close> for a fulfilled promise, \<^verbatim>\<open>onRejected\<close> for a rejected one) throws
  \<open>e\<close>, the derived promise, still pending, becomes rejected with exactly \<open>[e]\<close> and its
  own continuations are deferred; nothing is thrown out of \<^verbatim>\<open>callCallbacks\<close>: the loop
  over \<^verbatim>\<open>deferred\<close> goes on with the next continuation.
\<close>

theorem handler_throw_rejects:
  assumes "pstate (promises s p) = Some b"
    and "(if b then onFulfilled else onRejected) = Some f"
    and "fst (apply_fn env f (pvalues (promises s p)) s) = Throws e"
    and "pstate (promises s newPromise) = None"
  shows "pstate (promises (callCallbacks env (CallCallbacks p onFulfilled onRejected newPromise) s)
           newPromise) = Some False \<and>
         pvalues (promises (callCallbacks env (CallCallbacks p onFulfilled onRejected newPromise) s)
           newPromise) = [e] \<and>
         timers (callCallbacks env (CallCallbacks p onFulfilled onRejected newPromise) s) =
           timers s @ [RunDeferred newPromise] \<and>
         run_deferred env (CallCallbacks p onFulfilled onRejected newPromise # cbs) s =
           run_deferred env cbs
             (set_promise newPromise (Some False) [e]
               (snd (apply_fn env f (pvalues (promises s p)) s)))"
proof -
  obtain r s1 where a: "apply_fn env f (pvalues (promises s p)) s = (r, s1)"
    by (cases "apply_fn env f (pvalues (promises s p)) s")
  with assms(3) have r: "r = Throws e" by simp
  from apply_fn_throws_promises [OF assms(3)] a
  have s1: "promises s1 = promises s" "timers s1 = timers s" by simp_all
  have c: "callCallbacks env (CallCallbacks p onFulfilled onRejected newPromise) s =
     set_promise newPromise (Some False) [e] s1"
    using assms(1,2) a r by (cases b) (simp_all add: callCallbacks_def)
  show ?thesis
    using c s1 assms(4) a by (simp add: set_promise_def defer_call_def)
qed

text \<open>Consumer function 1 of \<open>host\<close> throws its argument.\<close>

theorem handler_throw_rejects_witness:
  "pstate (promises loaded_download 4) = Some True \<and>
   fst (apply_fn (host 10) (User 1) (pvalues (promises loaded_download 4)) loaded_download) =
     Throws (FileV 0) \<and>
   pstate (promises loaded_download 5) = None \<and>
   pstate (promises (callCallbacks (host 10) (CallCallbacks 4 (Some (User 1)) None 5)
      loaded_download) 5) = Some False \<and>
   pvalues (promises (callCallbacks (host 10) (CallCallbacks 4 (Some (User 1)) None 5)
      loaded_download) 5) = [FileV 0]"
proof -
  have a: "pstate (promises loaded_download 4) = Some True"
    and b: "(if True then Some (User 1) else None) = Some (User 1)"
    and c: "fst (apply_fn (host 10) (User 1) (pvalues (promises loaded_download 4))
              loaded_download) = Throws (FileV 0)"
    and d: "pstate (promises loaded_download 5) = None"
    unfolding loaded_download_def by (simp_all add: eval)
  from handler_throw_rejects [OF a b c d, of "[]"] a c d show ?thesis by blast
qed

section \<open>The dispatch queue\<close>

text \<open>
  Claim C2. With \<^verbatim>\<open>cache_requests\<close> = 2, three downloads of three different files that are
  not cached, followed by three timer turns, leave three HTTP clients running at the
  same time, and nothing waiting: \<^verbatim>\<open>dispatchNextTask\<close> compares the number of waiting
  tickets, not the number of running requests, with \<^verbatim>\<open>MAX_ASYNC_TASKS\<close>.
\<close>

theorem three_running_with_limit_two:
  "MAX_ASYNC_TASKS (host 2) = 2 \<and>
   map fst (http three_downloads) = [''a'', ''b'', ''c''] \<and>
   length (http three_downloads) = 3 \<and>
   sent three_downloads = [''a'', ''b'', ''c''] \<and>
   dispatch_queue three_downloads = []"
  unfolding three_downloads_def by (simp add: eval)


section \<open>Downloads\<close>

lemma attachCallbacks_other_fields [simp]:
  "next_file (snd (attachCallbacks a p s)) = next_file s"
  "files (snd (attachCallbacks a p s)) = files s"
  "pending_tasks (snd (attachCallbacks a p s)) = pending_tasks s"
  "dispatch_queue (snd (attachCallbacks a p s)) = dispatch_queue s"
  "http (snd (attachCallbacks a p s)) = http s"
  "sent (snd (attachCallbacks a p s)) = sent s"
  "calls (snd (attachCallbacks a p s)) = calls s"
  "metadata (snd (attachCallbacks a p s)) = metadata s"
  "disk (snd (attachCallbacks a p s)) = disk s"
  "now (snd (attachCallbacks a p s)) = now s"
  "online (snd (attachCallbacks a p s)) = online s"
  by (simp_all add: attachCallbacks_def)

lemma attachCallbacks_result:
  "fst (attachCallbacks a p s) = (if no_callbacks a then p else next_promise s)"
  by (simp add: attachCallbacks_def no_callbacks_def)

lemma attachCallbacks_bare [simp]: "no_callbacks a \<Longrightarrow> attachCallbacks a p s = (p, s)"
  by (simp add: attachCallbacks_def no_callbacks_def)

lemma attachCallbacks_settled:
  "p < next_promise s \<Longrightarrow> pstate (promises s p) = Some b \<Longrightarrow>
   pstate (promises (snd (attachCallbacks a p s)) p) = Some b \<and>
   pvalues (promises (snd (attachCallbacks a p s)) p) = pvalues (promises s p) \<and>
   (\<not> no_callbacks a \<longrightarrow>
      forward (promises (snd (attachCallbacks a p s)) (next_promise s)) = Some p \<and>
      timers (snd (attachCallbacks a p s)) = timers s @
        [RunCallback (CallCallbacks p (map_option User (onload a)) (map_option User (onerror a))
           (next_promise s))])"
  by (auto simp: attachCallbacks_def no_callbacks_def snd_then_promise subscribe_def attach_def
      derive_def progress_def defer_call_def Let_def split: option.splits)

text \<open>
  Claim C8, as amended. When no download of the file id is in flight and the entry is
  cached (a metadata record exists and the file is on disk) and not expired,
  \<^verbatim>\<open>download\<close> sets the entry's \<^verbatim>\<open>last_used_at\<close> to the current time and saves it,
  creates a promise that is fulfilled at once with the entry, and returns it, through
  \<^verbatim>\<open>attachCallbacks\<close>: the promise itself when the argument has no callbacks, otherwise
  the promise derived from it by \<^verbatim>\<open>then\<close>, whose callbacks are deferred. No request is
  sent, and neither the dispatch queue nor the table of downloads in flight changes.
\<close>

theorem download_fresh_cache_hit:
  assumes "pending_tasks s (idFromUrl env (url a)) = None"
    and "metadata s (idFromUrl env (url a)) = Some cd"
    and "disk s (idFromUrl env (url a))"
    and "\<not> now s - m_last_used_at cd > EXPIRATION_TIME env"
  shows "metadata (snd (download env a s)) (idFromUrl env (url a)) =
           Some \<lparr>m_last_used_at = now s, m_md5 = m_md5 cd\<rparr> \<and>
         file_id (files (snd (download env a s)) (next_file s)) = idFromUrl env (url a) \<and>
         last_used_at (files (snd (download env a s)) (next_file s)) = now s \<and>
         is_cached (files (snd (download env a s)) (next_file s)) \<and>
         pstate (promises (snd (download env a s)) (next_promise s)) = Some True \<and>
         pvalues (promises (snd (download env a s)) (next_promise s)) = [FileV (next_file s)] \<and>
         fst (download env a s) = (if no_callbacks a then next_promise s else Suc (next_promise s)) \<and>
         (\<not> no_callbacks a \<longrightarrow>
            forward (promises (snd (download env a s)) (Suc (next_promise s))) = Some (next_promise s) \<and>
            RunCallback (CallCallbacks (next_promise s) (map_option User (onload a))
                (map_option User (onerror a)) (Suc (next_promise s)))
              \<in> set (timers (snd (download env a s)))) \<and>
         sent (snd (download env a s)) = sent s \<and>
         http (snd (download env a s)) = http s \<and>
         dispatch_queue (snd (download env a s)) = dispatch_queue s \<and>
         pending_tasks (snd (download env a s)) = pending_tasks s"
proof -
  let ?k = "idFromUrl env (url a)"
  let ?f = "next_file s"
  let ?w = "next_promise s"
  define s1 where "s1 = snd (fromURL env (url a) s)"
  define s3 where "s3 = set_promise ?w (Some True) [FileV ?f] (snd (pinkySwear (save ?f (updateLastUsedAt ?f s1))))"
  have f: "fst (fromURL env (url a) s) = ?f"
    by (simp add: fromURL_def File_def Let_def)
  have s1: "files s1 ?f = \<lparr>file_id = ?k, is_cached = True, last_used_at = m_last_used_at cd,
       md5 = m_md5 cd, pending = False, downloaded = False\<rparr>"
    "pending_tasks s1 = pending_tasks s" "now s1 = now s" "metadata s1 = metadata s"
    "next_promise s1 = next_promise s" "sent s1 = sent s" "http s1 = http s"
    "dispatch_queue s1 = dispatch_queue s"
    using assms(2,3) by (simp_all add: s1_def fromURL_def File_def Let_def)
  have d: "download env a s = attachCallbacks a ?w s3"
    using assms s1
    by (simp add: download_def case_prod_unfold f s1_def [symmetric] expired_def Let_def s3_def
        pinkySwear_def save_def updateLastUsedAt_def)
  have s3: "metadata s3 ?k = Some \<lparr>m_last_used_at = now s, m_md5 = m_md5 cd\<rparr>"
    "file_id (files s3 ?f) = ?k" "last_used_at (files s3 ?f) = now s" "is_cached (files s3 ?f)"
    "pstate (promises s3 ?w) = Some True" "pvalues (promises s3 ?w) = [FileV ?f]"
    "next_promise s3 = Suc ?w" "sent s3 = sent s" "http s3 = http s"
    "dispatch_queue s3 = dispatch_queue s" "pending_tasks s3 = pending_tasks s"
    using s1 by (simp_all add: s3_def set_promise_def defer_call_def pinkySwear_def save_def
        updateLastUsedAt_def)
  have w: "?w < next_promise s3" by (simp add: s3)
  from attachCallbacks_settled [OF w s3(5), of a] s3
  show ?thesis
    by (simp add: d attachCallbacks_result)
qed


theorem download_fresh_cache_hit_witness:
  "pending_tasks cached_download (idFromUrl (host 10) (url (bare ''a''))) = None \<and>
   metadata cached_download (idFromUrl (host 10) (url (bare ''a''))) =
     Some \<lparr>m_last_used_at = 0, m_md5 = Some ''data''\<rparr> \<and>
   disk cached_download (idFromUrl (host 10) (url (bare ''a''))) \<and>
   now cached_download = 5 \<and>
   metadata (snd (download (host 10) (bare ''a'') cached_download)) ''a'' =
     Some \<lparr>m_last_used_at = 5, m_md5 = Some ''data''\<rparr> \<and>
   pstate (promises (snd (download (host 10) (bare ''a'') cached_download))
     (next_promise cached_download)) = Some True \<and>
   fst (download (host 10) (bare ''a'') cached_download) = next_promise cached_download \<and>
   sent (snd (download (host 10) (bare ''a'') cached_download)) = [''a'']"
proof -
  have a: "pending_tasks cached_download (idFromUrl (host 10) (url (bare ''a''))) = None"
    and b: "metadata cached_download (idFromUrl (host 10) (url (bare ''a''))) =
      Some \<lparr>m_last_used_at = 0, m_md5 = Some ''data''\<rparr>"
    and c: "disk cached_download (idFromUrl (host 10) (url (bare ''a'')))"
    and d: "\<not> now cached_download - m_last_used_at \<lparr>m_last_used_at = 0, m_md5 = Some ''data''\<rparr>
              > EXPIRATION_TIME (host 10)"
    and e: "now cached_download = 5" "sent cached_download = [''a'']"
      "idFromUrl (host 10) (url (bare ''a'')) = ''a''" "no_callbacks (bare ''a'')"
    unfolding cached_download_def loaded_download_def
    by (simp_all add: eval no_callbacks_def)
  from download_fresh_cache_hit [OF a b c d] a b c e show ?thesis by simp
qed

text \<open>
  Claim C8 as stated fails while the download of the file is still registered in
  \<^verbatim>\<open>pending_tasks\<close>: after the data were written and saved (the entry is cached and not
  expired) and before the function given to \<^verbatim>\<open>fin\<close> has run, \<^verbatim>\<open>download\<close> returns the
  promise in flight and leaves \<^verbatim>\<open>last_used_at\<close> at its old value.
\<close>

theorem download_cached_but_in_flight:
  "metadata loaded_download ''a'' = Some \<lparr>m_last_used_at = 0, m_md5 = Some ''data''\<rparr> \<and>
   disk loaded_download ''a'' \<and>
   now loaded_download = 5 \<and>
   EXPIRATION_TIME (host 10) = 1000 \<and>
   pending_tasks loaded_download ''a'' = Some 4 \<and>
   fst (download (host 10) (bare ''a'') loaded_download) = 4 \<and>
   metadata (snd (download (host 10) (bare ''a'') loaded_download)) ''a'' =
     Some \<lparr>m_last_used_at = 0, m_md5 = Some ''data''\<rparr> \<and>
   next_promise (snd (download (host 10) (bare ''a'') loaded_download)) =
     next_promise loaded_download"
  unfolding loaded_download_def by (simp add: eval)

text \<open>
  Claim C4 as stated fails for a caller without callbacks, whose promise is the one
  registered in \<^verbatim>\<open>pending_tasks\<close>: after the request failed, that promise (number 4) is
  rejected while the file id is still registered; the function given to \<^verbatim>\<open>fin\<close> runs in
  the next timer turn.
\<close>

theorem settled_before_cleanup:
  "fst (download (host 10) (bare ''a'') fresh) = 4 \<and>
   pstate (promises failed_download 4) = Some False \<and>
   pvalues (promises failed_download 4) = [ErrorEvent ''timeout''] \<and>
   pending_tasks failed_download ''a'' = Some 4 \<and>
   timers failed_download = [RunDeferred 4] \<and>
   fst (download (host 10) (bare ''a'') failed_download) = 4 \<and>
   sent (snd (download (host 10) (bare ''a'') failed_download)) = [''a''] \<and>
   pending_tasks (step (host 10) Timeout failed_download) ''a'' = None"
  unfolding failed_download_def by (simp add: eval)

lemma fromURL_fields [simp]:
  "fst (fromURL env u s) = next_file s"
  "next_file (snd (fromURL env u s)) = Suc (next_file s)"
  "promises (snd (fromURL env u s)) = promises s"
  "next_promise (snd (fromURL env u s)) = next_promise s"
  "timers (snd (fromURL env u s)) = timers s"
  "pending_tasks (snd (fromURL env u s)) = pending_tasks s"
  "dispatch_queue (snd (fromURL env u s)) = dispatch_queue s"
  "http (snd (fromURL env u s)) = http s"
  "sent (snd (fromURL env u s)) = sent s"
  "calls (snd (fromURL env u s)) = calls s"
  "metadata (snd (fromURL env u s)) = metadata s"
  "disk (snd (fromURL env u s)) = disk s"
  "now (snd (fromURL env u s)) = now s"
  "online (snd (fromURL env u s)) = online s"
  "file_id (files (snd (fromURL env u s)) (next_file s)) = idFromUrl env u"
  "f \<noteq> next_file s \<Longrightarrow> files (snd (fromURL env u s)) f = files s f"
  by (simp_all add: fromURL_def File_def Let_def split: option.splits)

lemma fromURL_cached:
  "(is_cached (files (snd (fromURL env u s)) (next_file s)) \<and>
    \<not> fst (expired env False (next_file s) (snd (fromURL env u s)))) =
   fresh_in_cache env (idFromUrl env u) s"
  by (simp add: fromURL_def File_def Let_def expired_def fresh_in_cache_def split: option.splits)

lemma download_in_flight:
  "pending_tasks s (idFromUrl env (url a)) = Some p \<Longrightarrow>
   download env a s = attachCallbacks a p (snd (fromURL env (url a) s))"
  by (simp add: download_def case_prod_unfold Let_def)

lemma download_starts:
  assumes "pending_tasks s (idFromUrl env (url a)) = None"
    and "\<not> fresh_in_cache env (idFromUrl env (url a)) s" and "online s"
  shows "download env a s = start_download env a (next_file s) (snd (fromURL env (url a) s))"
proof -
  have "(if is_cached (files (snd (fromURL env (url a) s)) (next_file s)) \<and>
            \<not> fst (expired env False (next_file s) (snd (fromURL env (url a) s)))
         then x else y) = y" for x y :: "pid \<times> state"
    using fromURL_cached [of env "url a" s] assms(2) by auto
  then show ?thesis
    using assms(1,3) by (simp add: download_def case_prod_unfold Let_def)
qed

section \<open>No download comes in flight in a timer turn\<close>

lemma no_new_pending_refl [simp]: "no_new_pending s s"
  by (simp add: no_new_pending_def)

lemma no_new_pending_trans:
  "no_new_pending s s1 \<Longrightarrow> no_new_pending s1 s2 \<Longrightarrow> no_new_pending s s2"
  by (simp add: no_new_pending_def)

lemma set_promise_pending_tasks [simp]:
  "pending_tasks (set_promise p b vs s) = pending_tasks s"
  by (simp add: set_promise_def defer_call_def)

lemma dispatchNextTask_pending_tasks [simp]:
  "pending_tasks (dispatchNextTask env s) = pending_tasks s"
  by (simp add: dispatchNextTask_def resolve_def split: list.splits)

lemma no_new_pending_apply_fn: "no_new_pending s (snd (apply_fn env f vs s))"
  by (cases f) (auto simp: no_new_pending_def pinkySwear_def spawnHTTPClient_def write_file_def
     save_def updateLastUsedAt_def notify_def defer_call_def Let_def split_def)

lemma no_new_pending_callCallbacks: "no_new_pending s (callCallbacks env cb s)"
proof (cases cb)
  case (CallCallbacks p onF onR np)
  show ?thesis
  proof (cases "if pstate (promises s p) = Some True then onF else onR")
    case None
    then show ?thesis using CallCallbacks by (simp add: callCallbacks_def no_new_pending_def)
  next
    case (Some f)
    have "pending_tasks (callCallbacks env cb s) =
          pending_tasks (snd (apply_fn env f (pvalues (promises s p)) s))"
      using CallCallbacks Some
      by (auto simp: callCallbacks_def case_prod_unfold split: outcome.splits val.splits)
    then show ?thesis
      using no_new_pending_apply_fn [of s env f "pvalues (promises s p)"]
      by (simp add: no_new_pending_def)
  qed
qed

lemma no_new_pending_run_deferred: "no_new_pending s (run_deferred env cbs s)"
proof (induction cbs arbitrary: s)
  case Nil then show ?case by simp
next
  case (Cons cb cbs)
  from no_new_pending_trans [OF no_new_pending_callCallbacks Cons] show ?case by simp
qed

section \<open>What each step of the promise code changes\<close>

lemma derive_fields [simp]:
  "promises (derive p s) q =
     (if q = next_promise s
      then \<lparr>pstate = None, pvalues = [], deferred = [], progress_fns = None, forward = Some p\<rparr>
      else promises s q)"
  "next_promise (derive p s) = Suc (next_promise s)"
  "timers (derive p s) = timers s"
  by (simp_all add: derive_def)

lemma attach_fields [simp]:
  "pstate (promises (attach p cb s) q) = pstate (promises s q)"
  "pvalues (promises (attach p cb s) q) = pvalues (promises s q)"
  "forward (promises (attach p cb s) q) = forward (promises s q)"
  "progress_fns (promises (attach p cb s) q) = progress_fns (promises s q)"
  "deferred (promises (attach p cb s) q) =
     deferred (promises s q) @ (if q = p \<and> pstate (promises s p) = None then [cb] else [])"
  "timers (attach p cb s) = timers s @ (if pstate (promises s p) \<noteq> None then [RunCallback cb] else [])"
  "next_promise (attach p cb s) = next_promise s"
  by (simp_all add: attach_def defer_call_def)

lemma progress_fields [simp]:
  "pstate (promises (progress p f s) q) = pstate (promises s q)"
  "pvalues (promises (progress p f s) q) = pvalues (promises s q)"
  "forward (promises (progress p f s) q) = forward (promises s q)"
  "deferred (promises (progress p f s) q) = deferred (promises s q)"
  "progress_fns (promises (progress p f s) q) =
     (if q = origin (promises s) p
      then Some ((case progress_fns (promises s q) of None \<Rightarrow> [] | Some l \<Rightarrow> l) @ [f])
      else progress_fns (promises s q))"
  "timers (progress p f s) = timers s"
  "next_promise (progress p f s) = next_promise s"
  by (simp_all add: progress_def Let_def)

lemma subscribe_fields [simp]:
  "pstate (promises (subscribe p c s) q) = pstate (promises s q)"
  "pvalues (promises (subscribe p c s) q) = pvalues (promises s q)"
  "forward (promises (subscribe p c s) q) = forward (promises s q)"
  "deferred (promises (subscribe p c s) q) = deferred (promises s q)"
  "timers (subscribe p c s) = timers s"
  "next_promise (subscribe p c s) = next_promise s"
  by (simp_all add: subscribe_def split: option.splits)

lemma set_promise_fields [simp]:
  "pstate (promises (set_promise p b vs s) q) =
     (if q = p \<and> pstate (promises s p) = None then b else pstate (promises s q))"
  "pvalues (promises (set_promise p b vs s) q) =
     (if q = p \<and> pstate (promises s p) = None then vs else pvalues (promises s q))"
  "forward (promises (set_promise p b vs s) q) = forward (promises s q)"
  "deferred (promises (set_promise p b vs s) q) = deferred (promises s q)"
  "progress_fns (promises (set_promise p b vs s) q) = progress_fns (promises s q)"
  "timers (set_promise p b vs s) =
     timers s @ (if pstate (promises s p) = None then [RunDeferred p] else [])"
  "next_promise (set_promise p b vs s) = next_promise s"
  "files (set_promise p b vs s) = files s"
  "next_file (set_promise p b vs s) = next_file s"
  "dispatch_queue (set_promise p b vs s) = dispatch_queue s"
  "http (set_promise p b vs s) = http s"
  "sent (set_promise p b vs s) = sent s"
  "calls (set_promise p b vs s) = calls s"
  "metadata (set_promise p b vs s) = metadata s"
  "disk (set_promise p b vs s) = disk s"
  "now (set_promise p b vs s) = now s"
  "online (set_promise p b vs s) = online s"
  by (simp_all add: set_promise_def defer_call_def)

lemma then_promise_fields [simp]:
  "pstate (promises (snd (then_promise p a b c s)) q) =
     (if q = next_promise s then None else pstate (promises s q))"
  "pvalues (promises (snd (then_promise p a b c s)) q) =
     (if q = next_promise s then [] else pvalues (promises s q))"
  "forward (promises (snd (then_promise p a b c s)) q) =
     (if q = next_promise s then Some p else forward (promises s q))"
  "deferred (promises (snd (then_promise p a b c s)) q) =
     (if q = next_promise s then [] else deferred (promises s q)) @
     (if q = p \<and> (p = next_promise s \<or> pstate (promises s p) = None)
      then [CallCallbacks p a b (next_promise s)] else [])"
  "timers (snd (then_promise p a b c s)) =
     timers s @ (if p \<noteq> next_promise s \<and> pstate (promises s p) \<noteq> None
                 then [RunCallback (CallCallbacks p a b (next_promise s))] else [])"
  by (simp_all add: snd_then_promise)


lemma attachCallbacks_sent_http:
  "sent (snd (attachCallbacks a p s)) = sent s \<and> http (snd (attachCallbacks a p s)) = http s"
  by simp





section \<open>What the loader never undoes\<close>

lemma grows_refl [simp]: "grows s s"
  by (simp add: grows_def)

lemma grows_trans:
  assumes "grows s s1" and "grows s1 s2"
  shows "grows s s2"
proof -
  have n: "next_promise s \<le> next_promise s1" "next_file s \<le> next_file s1"
    using assms(1) by (simp_all add: grows_def)
  have p: "prefix (deferred (promises s p)) (deferred (promises s2 p)) \<and>
        forward (promises s2 p) = forward (promises s p) \<and>
        (pstate (promises s p) \<noteq> None \<longrightarrow>
           pstate (promises s2 p) = pstate (promises s p) \<and>
           pvalues (promises s2 p) = pvalues (promises s p)) \<and>
        (pstate (promises s2 p) \<noteq> None \<longrightarrow>
           pstate (promises s p) \<noteq> None \<or> RunDeferred p \<in> set (timers s2)) \<and>
        (\<forall>l. progress_fns (promises s p) = Some l \<longrightarrow>
           (\<exists>l'. progress_fns (promises s2 p) = Some (l @ l')))"
    if "p < next_promise s" for p
  proof -
    have p1: "p < next_promise s1" using that n by simp
    have t: "set (timers s1) \<subseteq> set (timers s2)"
      using assms(2) by (auto simp: grows_def dest: set_mono_prefix)
    show ?thesis
      using assms that p1 t unfolding grows_def
      by (smt (verit, best) append.assoc prefix_order.order_trans subsetD)
  qed
  have f: "file_id (files s2 f) = file_id (files s f)" if "f < next_file s" for f
    using assms that n unfolding grows_def by (metis less_le_trans)
  show ?thesis
    unfolding grows_def
    using p f assms n
    by (auto simp: grows_def intro: prefix_order.order_trans)
qed


lemma grows_other_fields [simp]:
  "grows s (s'\<lparr>pending_tasks := pt\<rparr>) = grows s s'"
  "grows s (s'\<lparr>http := h\<rparr>) = grows s s'"
  "grows s (s'\<lparr>now := n\<rparr>) = grows s s'"
  "grows s (s'\<lparr>online := b\<rparr>) = grows s s'"
  "grows s (s'\<lparr>metadata := m\<rparr>) = grows s s'"
  "grows s (s'\<lparr>disk := d\<rparr>) = grows s s'"
  "grows s (s'\<lparr>dispatch_queue := dq\<rparr>) = grows s s'"
  by (simp_all add: grows_def)

lemma grows_set_promise: "grows s (set_promise p b vs s)"
  by (auto simp: grows_def)

lemma grows_derive: "grows s (derive p s)"
  by (simp add: grows_def derive_def)

lemma grows_attach: "grows s (attach p cb s)"
  by (simp add: grows_def) (simp add: attach_def defer_call_def)

lemma grows_progress: "grows s (progress p f s)"
  by (simp add: grows_def) (simp add: progress_def Let_def)

lemma grows_subscribe: "grows s (subscribe p c s)"
  by (cases c) (simp_all add: subscribe_def grows_progress)

lemma grows_then_promise: "grows s (snd (then_promise p a b c s))"
  unfolding snd_then_promise
  by (rule grows_trans [OF grows_trans [OF grows_derive grows_attach] grows_subscribe])

lemma grows_notify: "grows s (notify p v s)"
  by (simp add: grows_def notify_def defer_call_def)

lemma grows_pinkySwear: "grows s (snd (pinkySwear s))"
  by (simp add: grows_def pinkySwear_def)

lemma grows_dispatchNextTask: "grows s (dispatchNextTask env s)"
proof (cases "dispatch_queue s")
  case Nil
  then show ?thesis by (simp add: dispatchNextTask_def)
next
  case (Cons t rest)
  have "grows s (s\<lparr>dispatch_queue := rest\<rparr>)" by simp
  from grows_trans [OF this grows_set_promise] show ?thesis
    using Cons by (simp add: dispatchNextTask_def resolve_def)
qed

lemma grows_files_update:
  "file_id x = file_id (files s' f) \<Longrightarrow> grows s (s'\<lparr>files := (files s')(f := x)\<rparr>) = grows s s'"
  by (auto simp: grows_def)

lemma grows_File: "grows s (snd (File i s))"
  by (simp add: File_def grows_def Let_def)

lemma grows_fromURL: "grows s (snd (fromURL env u s))"
  by (simp add: fromURL_def grows_File)

lemma grows_save: "grows s (save f s)"
  by (simp add: save_def grows_def)

lemma grows_updateLastUsedAt: "grows s (updateLastUsedAt f s)"
  by (simp add: updateLastUsedAt_def grows_def)

lemma grows_write_file: "grows s (snd (write_file env f d s))"
  by (simp add: write_file_def Let_def grows_def)

lemma grows_spawnHTTPClient: "grows s (spawnHTTPClient u p s)"
  by (simp add: spawnHTTPClient_def grows_def)

lemma grows_calls: "grows s (s\<lparr>calls := calls s @ c\<rparr>)"
  by (simp add: grows_def)

lemmas grows_after =
  grows_trans [OF _ grows_set_promise] grows_trans [OF _ grows_then_promise]
  grows_trans [OF _ grows_notify] grows_trans [OF _ grows_pinkySwear]
  grows_trans [OF _ grows_dispatchNextTask] grows_trans [OF _ grows_File]
  grows_trans [OF _ grows_fromURL] grows_trans [OF _ grows_save]
  grows_trans [OF _ grows_updateLastUsedAt] grows_trans [OF _ grows_write_file]
  grows_trans [OF _ grows_spawnHTTPClient]

lemma grows_apply_fn: "grows s (snd (apply_fn env f vs s))"
proof (cases f)
  case (User n)
  then show ?thesis by (simp add: grows_calls)
next
  case (SpawnFn u)
  then show ?thesis by (simp add: case_prod_unfold) (intro grows_after grows_refl)
next
  case (GetFn x3)
  then show ?thesis by simp
next
  case (WriteFn u x)
  define s1 where "s1 = snd (write_file env x (first_arg vs) s)"
  have a: "grows s s1" unfolding s1_def by (rule grows_write_file)
  have "grows s1 (s1\<lparr>files := (files s1)(x := (files s1 x)\<lparr>downloaded := True\<rparr>)\<rparr>)"
    by (simp add: grows_files_update)
  then have "grows s1 (save x (updateLastUsedAt x
      (s1\<lparr>files := (files s1)(x := (files s1 x)\<lparr>downloaded := True\<rparr>)\<rparr>)))"
    by (intro grows_after)
  from grows_trans [OF a this] a show ?thesis
    using WriteFn by (simp add: case_prod_unfold Let_def s1_def)
next
  case (FinFn x)
  have "grows s (s\<lparr>pending_tasks := (pending_tasks s)(file_id (files s x) := None),
      files := (files s)(x := (files s x)\<lparr>pending := False\<rparr>)\<rparr>)"
    by (simp add: grows_def)
  from grows_trans [OF this grows_dispatchNextTask] show ?thesis using FinFn by simp
next
  case (AdoptFulfil x6)
  then show ?thesis by (simp add: grows_set_promise)
next
  case (AdoptReject x7)
  then show ?thesis by (simp add: grows_set_promise)
next
  case (AdoptNotify x8)
  then show ?thesis by (simp add: grows_notify)
qed


lemma grows_callCallbacks: "grows s (callCallbacks env cb s)"
proof (cases cb)
  case (CallCallbacks p onF onR np)
  show ?thesis
  proof (cases "if pstate (promises s p) = Some True then onF else onR")
    case None
    then show ?thesis
      using CallCallbacks by (simp add: callCallbacks_def grows_set_promise)
  next
    case (Some f)
    obtain r s1 where a: "apply_fn env f (pvalues (promises s p)) s = (r, s1)"
      by (cases "apply_fn env f (pvalues (promises s p)) s")
    then have k1: "grows s s1"
      using grows_apply_fn [of s env f "pvalues (promises s p)"] by simp
    have "grows s1 (callCallbacks env cb s)"
      using CallCallbacks Some a
      by (auto simp: callCallbacks_def grows_set_promise grows_then_promise
          split: outcome.splits val.splits)
    with k1 show ?thesis by (rule grows_trans)
  qed
qed

lemma grows_run_deferred: "grows s (run_deferred env cbs s)"
proof (induction cbs arbitrary: s)
  case Nil then show ?case by simp
next
  case (Cons cb cbs)
  from grows_trans [OF grows_callCallbacks Cons] show ?case by simp
qed

lemma grows_run_progress: "grows s (run_progress env fs v s)"
proof (induction fs arbitrary: s)
  case Nil then show ?case by simp
next
  case (Cons f fs)
  obtain r s1 where a: "apply_fn env f [v] s = (r, s1)" by (cases "apply_fn env f [v] s")
  then have "grows s s1" using grows_apply_fn [of s env f "[v]"] by simp
  then show ?case using Cons [of s1] a grows_trans by (cases r) auto
qed

lemma grows_run_task: "grows s (run_task env t s)"
  by (cases t) (auto simp: run_task_def grows_run_deferred grows_callCallbacks grows_run_progress
      split: option.splits)

lemma grows_attachCallbacks: "grows s (snd (attachCallbacks a p s))"
  by (simp add: attachCallbacks_def grows_then_promise)

lemma no_new_pending_run_task: "no_new_pending s (run_task env t s)"
proof (cases t)
  case (RunNotify p v)
  have "no_new_pending s (run_progress env fs v s)" for fs
  proof (induction fs arbitrary: s)
    case Nil then show ?case by simp
  next
    case (Cons f fs)
    obtain r s1 where a: "apply_fn env f [v] s = (r, s1)" by (cases "apply_fn env f [v] s")
    then have "no_new_pending s s1" using no_new_pending_apply_fn [of s env f "[v]"] by simp
    then show ?case using Cons [of s1] a no_new_pending_trans by (cases r) auto
  qed
  then show ?thesis using RunNotify by (simp add: run_task_def split: option.splits)
qed (simp_all add: run_task_def no_new_pending_run_deferred no_new_pending_callCallbacks)

section \<open>The function given to fin\<close>

lemma hooked_init: "hooked (init md dk t on)"
  by (simp add: hooked_def init_def)

lemma hooked_entry_grows:
  assumes "grows s s'"
    and "p < next_promise s" and "f < next_file s" and "file_id (files s f) = k"
    and "deferred (promises s p) = CallCallbacks p (Some (FinFn f)) (Some (FinFn f)) q # rest"
    and "pstate (promises s p) \<noteq> None \<longrightarrow> RunDeferred p \<in> set (timers s')"
  shows "p < next_promise s' \<and>
        (\<exists>f q rest. f < next_file s' \<and> file_id (files s' f) = k \<and>
           deferred (promises s' p) =
             CallCallbacks p (Some (FinFn f)) (Some (FinFn f)) q # rest) \<and>
        (pstate (promises s' p) \<noteq> None \<longrightarrow> RunDeferred p \<in> set (timers s'))"
proof -
  from assms(1,2) have pre: "prefix (deferred (promises s p)) (deferred (promises s' p))"
    and st: "pstate (promises s' p) \<noteq> None \<longrightarrow>
           pstate (promises s p) \<noteq> None \<or> RunDeferred p \<in> set (timers s')"
    and n: "next_promise s \<le> next_promise s'" "next_file s \<le> next_file s'"
    by (simp_all add: grows_def)
  from assms(1,3) have fi: "file_id (files s' f) = file_id (files s f)"
    by (simp add: grows_def)
  from pre assms(5) obtain rest' where
    "deferred (promises s' p) = CallCallbacks p (Some (FinFn f)) (Some (FinFn f)) q # rest'"
    by (auto simp: prefix_def)
  then show ?thesis
    using assms(2,3,4,6) st n fi by (metis less_le_trans)
qed

lemma hooked_grows:
  assumes "hooked s" and "grows s s'" and "no_new_pending s s'"
  shows "hooked s'"
  unfolding hooked_def
proof (intro allI impI)
  fix k p
  assume "pending_tasks s' k = Some p"
  with assms(3) have e: "pending_tasks s k = Some p" by (simp add: no_new_pending_def)
  with assms(1) obtain f q rest where h: "p < next_promise s" "f < next_file s"
    "file_id (files s f) = k"
    "deferred (promises s p) = CallCallbacks p (Some (FinFn f)) (Some (FinFn f)) q # rest"
    "pstate (promises s p) \<noteq> None \<longrightarrow> RunDeferred p \<in> set (timers s)"
    unfolding hooked_def by blast
  from assms(2) have "set (timers s) \<subseteq> set (timers s')"
    by (auto simp: grows_def dest: set_mono_prefix)
  with h(5) have "pstate (promises s p) \<noteq> None \<longrightarrow> RunDeferred p \<in> set (timers s')" by blast
  from hooked_entry_grows [OF assms(2) h(1-4) this]
  show "p < next_promise s' \<and>
        (\<exists>f q rest. f < next_file s' \<and> file_id (files s' f) = k \<and>
           deferred (promises s' p) =
             CallCallbacks p (Some (FinFn f)) (Some (FinFn f)) q # rest) \<and>
        (pstate (promises s' p) \<noteq> None \<longrightarrow> RunDeferred p \<in> set (timers s'))" .
qed


lemma fin_call:
  "callCallbacks env (CallCallbacks p (Some (FinFn f)) (Some (FinFn f)) q) s =
     set_promise q (Some True) [Undefined]
       (dispatchNextTask env
         (s\<lparr>pending_tasks := (pending_tasks s)(file_id (files s f) := None),
            files := (files s)(f := (files s f)\<lparr>pending := False\<rparr>)\<rparr>))"
  by (simp add: callCallbacks_def)

lemma fin_turn:
  assumes "timers s = RunDeferred p # ts"
    and "deferred (promises s p) = CallCallbacks p (Some (FinFn f)) (Some (FinFn f)) q # rest"
  shows "step env Timeout s =
           run_deferred env rest
             (set_promise q (Some True) [Undefined]
               (dispatchNextTask env
                 (s\<lparr>timers := ts,
                    pending_tasks := (pending_tasks s)(file_id (files s f) := None),
                    files := (files s)(f := (files s f)\<lparr>pending := False\<rparr>)\<rparr>)))"
    and "pending_tasks (step env Timeout s) (file_id (files s f)) = None"
proof -
  show a: "step env Timeout s =
           run_deferred env rest
             (set_promise q (Some True) [Undefined]
               (dispatchNextTask env
                 (s\<lparr>timers := ts,
                    pending_tasks := (pending_tasks s)(file_id (files s f) := None),
                    files := (files s)(f := (files s f)\<lparr>pending := False\<rparr>)\<rparr>)))"
    using assms by (simp add: step_def run_task_def fin_call)
  have "pending_tasks (set_promise q (Some True) [Undefined]
               (dispatchNextTask env
                 (s\<lparr>timers := ts,
                    pending_tasks := (pending_tasks s)(file_id (files s f) := None),
                    files := (files s)(f := (files s f)\<lparr>pending := False\<rparr>)\<rparr>)))
          (file_id (files s f)) = None" by simp
  with no_new_pending_run_deferred show "pending_tasks (step env Timeout s) (file_id (files s f)) = None"
    unfolding a no_new_pending_def by (metis option.exhaust)
qed

lemma hooked_timeout:
  assumes "hooked s"
  shows "hooked (step env Timeout s)"
proof (cases "timers s")
  case Nil
  then show ?thesis using assms by (simp add: step_def)
next
  case (Cons t ts)
  let ?s0 = "s\<lparr>timers := ts\<rparr>"
  let ?s' = "step env Timeout s"
  have s': "?s' = run_task env t ?s0" using Cons by (simp add: step_def)
  have g: "grows ?s0 ?s'" unfolding s' by (rule grows_run_task)
  have np: "no_new_pending ?s0 ?s'" unfolding s' by (rule no_new_pending_run_task)
  show ?thesis
    unfolding hooked_def
  proof (intro allI impI)
    fix k p
    assume e': "pending_tasks ?s' k = Some p"
    with np have e: "pending_tasks s k = Some p" by (simp add: no_new_pending_def)
    with assms obtain f q rest where h: "p < next_promise s" "f < next_file s"
      "file_id (files s f) = k"
      "deferred (promises s p) = CallCallbacks p (Some (FinFn f)) (Some (FinFn f)) q # rest"
      "pstate (promises s p) \<noteq> None \<longrightarrow> RunDeferred p \<in> set (timers s)"
      unfolding hooked_def by blast
    have t: "t \<noteq> RunDeferred p"
    proof
      assume "t = RunDeferred p"
      with Cons have "timers s = RunDeferred p # ts" by simp
      from fin_turn(2) [OF this h(4), of env] h(3) e' show False by simp
    qed
    from g have "set ts \<subseteq> set (timers ?s')"
      by (auto simp: grows_def dest: set_mono_prefix)
    with h(5) t Cons
    have "pstate (promises ?s0 p) \<noteq> None \<longrightarrow> RunDeferred p \<in> set (timers ?s')" by auto
    from hooked_entry_grows [OF g, of p f k q rest] h this
    show "p < next_promise ?s' \<and>
        (\<exists>f q rest. f < next_file ?s' \<and> file_id (files ?s' f) = k \<and>
           deferred (promises ?s' p) =
             CallCallbacks p (Some (FinFn f)) (Some (FinFn f)) q # rest) \<and>
        (pstate (promises ?s' p) \<noteq> None \<longrightarrow> RunDeferred p \<in> set (timers ?s'))"
      by simp
  qed
qed


lemma grows_requestDispatch: "grows s (snd (requestDispatch s))"
  by (simp add: requestDispatch_steps grows_def)

lemma grows_mark_pending: "grows s (mark_pending f w s)"
  by (simp add: mark_pending_def grows_def)

lemma grows_chain: "grows s (chain u f s)"
  unfolding chain_def
  by (rule grows_trans [OF grows_trans [OF grows_trans [OF grows_trans [OF grows_trans
      [OF grows_requestDispatch grows_then_promise] grows_then_promise] grows_then_promise]
      grows_then_promise] grows_then_promise])

lemma chain_fields [simp]:
  "next_promise (chain u f s) = next_promise s + 6"
  "files (chain u f s) = files s"
  "next_file (chain u f s) = next_file s"
  "pending_tasks (chain u f s) = pending_tasks s"
  "http (chain u f s) = http s"
  "sent (chain u f s) = sent s"
  "calls (chain u f s) = calls s"
  "timers (chain u f s) = timers s"
  "dispatch_queue (chain u f s) = dispatch_queue s @ [next_promise s]"
  by (simp_all add: chain_def requestDispatch_steps)

lemma chain_promises:
  "pstate (promises (chain u f s) q) =
     (if next_promise s \<le> q \<and> q < next_promise s + 6 then None else pstate (promises s q))"
  "deferred (promises (chain u f s) (next_promise s)) =
     [CallCallbacks (next_promise s) (Some (SpawnFn u)) None (Suc (next_promise s))]"
  "deferred (promises (chain u f s) (Suc (Suc (Suc (Suc (next_promise s)))))) =
     [CallCallbacks (Suc (Suc (Suc (Suc (next_promise s))))) (Some (FinFn f)) (Some (FinFn f))
        (Suc (Suc (Suc (Suc (Suc (next_promise s))))))]"
  by (auto simp: chain_def requestDispatch_steps)

lemma hooked_start_download:
  assumes "hooked s" and "f < next_file s"
  shows "hooked (snd (start_download env a f s))"
proof -
  let ?p4 = "Suc (Suc (Suc (Suc (next_promise s))))"
  let ?c = "chain (url a) f s"
  let ?m = "mark_pending f ?p4 ?c"
  let ?s' = "snd (start_download env a f s)"
  have s': "?s' = snd (attachCallbacks a ?p4 (dispatchNextTask env ?m))"
    by (simp add: start_download_steps)
  have g2: "grows ?m ?s'"
    unfolding s' by (rule grows_trans [OF grows_dispatchNextTask grows_attachCallbacks])
  have g1: "grows s ?m" by (rule grows_trans [OF grows_chain grows_mark_pending])
  have g: "grows s ?s'" by (rule grows_trans [OF g1 g2])
  have pt: "pending_tasks ?s' = (pending_tasks s)(file_id (files s f) \<mapsto> ?p4)"
    by (simp add: s' mark_pending_def)
  show ?thesis
    unfolding hooked_def
  proof (intro allI impI)
    fix k p
    assume e': "pending_tasks ?s' k = Some p"
    show "p < next_promise ?s' \<and>
        (\<exists>f q rest. f < next_file ?s' \<and> file_id (files ?s' f) = k \<and>
           deferred (promises ?s' p) =
             CallCallbacks p (Some (FinFn f)) (Some (FinFn f)) q # rest) \<and>
        (pstate (promises ?s' p) \<noteq> None \<longrightarrow> RunDeferred p \<in> set (timers ?s'))"
    proof (cases "k = file_id (files s f)")
      case True
      with e' pt have p: "p = ?p4" by simp
      have m: "?p4 < next_promise ?m" "f < next_file ?m" "file_id (files ?m f) = k"
        "deferred (promises ?m ?p4) =
           CallCallbacks ?p4 (Some (FinFn f)) (Some (FinFn f)) (Suc ?p4) # []"
        "pstate (promises ?m ?p4) \<noteq> None \<longrightarrow> RunDeferred ?p4 \<in> set (timers ?s')"
        using assms(2) True by (simp_all add: mark_pending_def chain_promises)
      from hooked_entry_grows [OF g2 m] show ?thesis unfolding p .
    next
      case False
      with e' pt have e: "pending_tasks s k = Some p" by (simp split: if_splits)
      with assms(1) obtain f' q rest where h: "p < next_promise s" "f' < next_file s"
        "file_id (files s f') = k"
        "deferred (promises s p) = CallCallbacks p (Some (FinFn f')) (Some (FinFn f')) q # rest"
        "pstate (promises s p) \<noteq> None \<longrightarrow> RunDeferred p \<in> set (timers s)"
        unfolding hooked_def by blast
      from g have "set (timers s) \<subseteq> set (timers ?s')"
        by (auto simp: grows_def dest: set_mono_prefix)
      with h(5) have "pstate (promises s p) \<noteq> None \<longrightarrow> RunDeferred p \<in> set (timers ?s')"
        by blast
      from hooked_entry_grows [OF g h(1-4) this] show ?thesis .
    qed
  qed
qed

lemma hooked_download:
  assumes "hooked s"
  shows "hooked (snd (download env a s))"
proof (cases "pending_tasks s (idFromUrl env (url a))")
  case (Some p)
  have "grows s (snd (download env a s))"
    unfolding download_in_flight [OF Some]
    by (rule grows_trans [OF grows_fromURL grows_attachCallbacks])
  moreover have "no_new_pending s (snd (download env a s))"
    by (simp add: download_in_flight [OF Some] no_new_pending_def)
  ultimately show ?thesis using assms hooked_grows by blast
next
  case None
  let ?s1 = "snd (fromURL env (url a) s)"
  let ?f = "next_file s"
  have g1: "grows s ?s1" by (rule grows_fromURL)
  have h1: "hooked ?s1" by (rule hooked_grows [OF assms g1]) (simp add: no_new_pending_def)
  have d: "download env a s =
      (if is_cached (files ?s1 ?f) \<and> \<not> fst (expired env False ?f ?s1)
       then attachCallbacks a (next_promise s)
              (set_promise (next_promise s) (Some True) [FileV ?f]
                (snd (pinkySwear (save ?f (updateLastUsedAt ?f ?s1)))))
       else if \<not> online s
       then attachCallbacks a (next_promise s)
              (set_promise (next_promise s) (Some False) [Str ''Network offline'']
                (snd (pinkySwear ?s1)))
       else start_download env a ?f ?s1)"
    using None by (simp add: download_def case_prod_unfold Let_def pinkySwear_def save_def
        updateLastUsedAt_def)
  have a: "hooked (snd (attachCallbacks a (next_promise s)
              (set_promise (next_promise s) (Some True) [FileV ?f]
                (snd (pinkySwear (save ?f (updateLastUsedAt ?f ?s1)))))))"
    by (rule hooked_grows [OF h1])
       (intro grows_after grows_trans [OF _ grows_attachCallbacks] grows_refl,
        simp add: no_new_pending_def pinkySwear_def save_def updateLastUsedAt_def)
  have b: "hooked (snd (attachCallbacks a (next_promise s)
              (set_promise (next_promise s) (Some False) [Str ''Network offline'']
                (snd (pinkySwear ?s1)))))"
    by (rule hooked_grows [OF h1])
       (intro grows_after grows_trans [OF _ grows_attachCallbacks] grows_refl,
        simp add: no_new_pending_def pinkySwear_def)
  have c: "hooked (snd (start_download env a ?f ?s1))"
    by (rule hooked_start_download [OF h1]) simp
  show ?thesis unfolding d using a b c by simp
qed

lemma hooked_step: "hooked s \<Longrightarrow> hooked (step env a s)"
proof (cases a)
  case (Download ar)
  then show "hooked s \<Longrightarrow> ?thesis" by (simp add: step_def hooked_download)
next
  case Timeout
  then show "hooked s \<Longrightarrow> ?thesis" by (simp add: hooked_timeout)
next
  case (HttpLoad i d)
  assume h: "hooked s"
  have "hooked (resolve p v (s\<lparr>http := x\<rparr>))" for p v x
    by (rule hooked_grows [OF h])
       (simp_all add: resolve_def no_new_pending_def grows_trans [OF _ grows_set_promise])
  then show ?thesis using HttpLoad h by (simp add: step_def)
next
  case (HttpError i e)
  assume h: "hooked s"
  have "hooked (reject p v (s\<lparr>http := x\<rparr>))" for p v x
    by (rule hooked_grows [OF h])
       (simp_all add: reject_def no_new_pending_def grows_trans [OF _ grows_set_promise])
  then show ?thesis using HttpError h by (simp add: step_def)
next
  case (HttpDataStream i v)
  assume h: "hooked s"
  have "hooked (notify p v s)" for p
    by (rule hooked_grows [OF h grows_notify]) (simp add: no_new_pending_def notify_def defer_call_def)
  then show ?thesis using HttpDataStream h by (simp add: step_def)
next
  case (Clock d)
  assume h: "hooked s"
  have "hooked (s\<lparr>now := now s + int d\<rparr>)"
    by (rule hooked_grows [OF h]) (simp_all add: no_new_pending_def)
  then show ?thesis using Clock by (simp add: step_def)
next
  case (Network b)
  assume h: "hooked s"
  have "hooked (s\<lparr>online := b\<rparr>)"
    by (rule hooked_grows [OF h]) (simp_all add: no_new_pending_def)
  then show ?thesis using Network by (simp add: step_def)
qed

lemma reachable_hooked: "reachable env s \<Longrightarrow> hooked s"
  by (induction rule: reachable.induct) (simp_all add: hooked_init hooked_step)

lemma reachable_run: "reachable env s \<Longrightarrow> reachable env (run env acts s)"
  by (induction acts arbitrary: s) (simp_all add: reachable.turn)


lemma fresh_reachable: "reachable env fresh"
  unfolding fresh_def by (rule reachable.loaded)

text \<open>
  Claim C4, as amended. In every state the loader can reach, a download in flight (an
  entry of \<^verbatim>\<open>pending_tasks\<close>, made by the last branch of \<^verbatim>\<open>download\<close>) has the function
  given to \<^verbatim>\<open>fin\<close> as the first continuation of its promise. Once that promise is
  settled, fulfilled or rejected alike, the loop over its continuations is among the
  timers. When that loop runs, the function given to \<^verbatim>\<open>fin\<close> runs first: it removes the
  entry and calls \<^verbatim>\<open>dispatchNextTask\<close> before any other continuation of the promise, so
  before any consumer function attached to it; after that turn the file id is no longer
  in flight. The promise itself is settled one turn before; a caller with callbacks
  gets the promise derived from it, whose continuation comes after the first one.
\<close>

theorem fin_cleans_up:
  assumes "reachable env s" and "pending_tasks s k = Some p"
  shows "(pstate (promises s p) \<noteq> None \<longrightarrow> RunDeferred p \<in> set (timers s)) \<and>
         (\<exists>f q rest.
            deferred (promises s p) =
              CallCallbacks p (Some (FinFn f)) (Some (FinFn f)) q # rest \<and>
            file_id (files s f) = k \<and>
            (\<forall>ts. timers s = RunDeferred p # ts \<longrightarrow>
               step env Timeout s =
                 run_deferred env rest
                   (set_promise q (Some True) [Undefined]
                     (dispatchNextTask env
                       (s\<lparr>timers := ts,
                          pending_tasks := (pending_tasks s)(k := None),
                          files := (files s)(f := (files s f)\<lparr>pending := False\<rparr>)\<rparr>))) \<and>
               pending_tasks (step env Timeout s) k = None))"
proof -
  from reachable_hooked [OF assms(1)] assms(2)
  obtain f q rest where h:
    "file_id (files s f) = k"
    "deferred (promises s p) = CallCallbacks p (Some (FinFn f)) (Some (FinFn f)) q # rest"
    "pstate (promises s p) \<noteq> None \<longrightarrow> RunDeferred p \<in> set (timers s)"
    unfolding hooked_def by blast
  from fin_turn [OF _ h(2), of _ env] h(1)
  have "\<forall>ts. timers s = RunDeferred p # ts \<longrightarrow>
               step env Timeout s =
                 run_deferred env rest
                   (set_promise q (Some True) [Undefined]
                     (dispatchNextTask env
                       (s\<lparr>timers := ts,
                          pending_tasks := (pending_tasks s)(k := None),
                          files := (files s)(f := (files s f)\<lparr>pending := False\<rparr>)\<rparr>))) \<and>
               pending_tasks (step env Timeout s) k = None"
    by simp
  with h show ?thesis by blast
qed

theorem fin_cleans_up_witness:
  "reachable (host 10) failed_download \<and>
   pending_tasks failed_download ''a'' = Some 4 \<and>
   pstate (promises failed_download 4) = Some False \<and>
   RunDeferred 4 \<in> set (timers failed_download) \<and>
   pending_tasks (step (host 10) Timeout failed_download) ''a'' = None"
proof -
  have r: "reachable (host 10) failed_download"
    unfolding failed_download_def by (rule reachable_run [OF fresh_reachable])
  have a: "pending_tasks failed_download ''a'' = Some 4"
    and b: "pstate (promises failed_download 4) = Some False"
    and c: "timers failed_download = [RunDeferred 4]"
    unfolding failed_download_def by (simp_all add: eval)
  from fin_cleans_up [OF r a] b c r a show ?thesis by auto
qed

section \<open>The state stays in order\<close>

lemma fn_ok_mono: "fn_ok n h \<Longrightarrow> n \<le> m \<Longrightarrow> fn_ok m h"
  by (cases "(n, h)" rule: fn_ok.cases) auto

lemma cb_ok_mono: "cb_ok n cb \<Longrightarrow> n \<le> m \<Longrightarrow> cb_ok m cb"
  by (cases cb) (auto intro: fn_ok_mono)

lemma task_ok_grows: "task_ok s t \<Longrightarrow> grows s s' \<Longrightarrow> task_ok s' t"
  by (cases t) (auto simp: grows_def intro: cb_ok_mono)

lemma task_ok_other_fields [simp]:
  "task_ok (s\<lparr>files := fs\<rparr>) t = task_ok s t"
  "task_ok (s\<lparr>next_file := nf\<rparr>) t = task_ok s t"
  "task_ok (s\<lparr>pending_tasks := pt\<rparr>) t = task_ok s t"
  "task_ok (s\<lparr>now := n\<rparr>) t = task_ok s t"
  "task_ok (s\<lparr>online := b\<rparr>) t = task_ok s t"
  "task_ok (s\<lparr>metadata := m\<rparr>) t = task_ok s t"
  "task_ok (s\<lparr>disk := d\<rparr>) t = task_ok s t"
  "task_ok (s\<lparr>calls := c\<rparr>) t = task_ok s t"
  "task_ok (s\<lparr>sent := se\<rparr>) t = task_ok s t"
  "task_ok (s\<lparr>http := h\<rparr>) t = task_ok s t"
  "task_ok (s\<lparr>dispatch_queue := q\<rparr>) t = task_ok s t"
  "task_ok (s\<lparr>timers := ts\<rparr>) t = task_ok s t"
  by (cases t; simp)+

lemma tidy_init: "tidy (init md dk t on)"
  by (simp add: tidy_def init_def)

lemma tidy_other_fields [simp]:
  "tidy (s\<lparr>files := fs\<rparr>) = tidy s"
  "tidy (s\<lparr>next_file := nf\<rparr>) = tidy s"
  "tidy (s\<lparr>pending_tasks := pt\<rparr>) = tidy s"
  "tidy (s\<lparr>now := n\<rparr>) = tidy s"
  "tidy (s\<lparr>online := b\<rparr>) = tidy s"
  "tidy (s\<lparr>metadata := m\<rparr>) = tidy s"
  "tidy (s\<lparr>disk := d\<rparr>) = tidy s"
  "tidy (s\<lparr>calls := c\<rparr>) = tidy s"
  "tidy (s\<lparr>sent := se\<rparr>) = tidy s"
  by (simp_all add: tidy_def)

lemma derive_rest [simp]:
  "dispatch_queue (derive p s) = dispatch_queue s" "http (derive p s) = http s"
  "files (derive p s) = files s" "next_file (derive p s) = next_file s"
  "pending_tasks (derive p s) = pending_tasks s" "sent (derive p s) = sent s"
  "calls (derive p s) = calls s" "metadata (derive p s) = metadata s"
  "disk (derive p s) = disk s" "now (derive p s) = now s" "online (derive p s) = online s"
  by (simp_all add: derive_def)

lemma attach_rest [simp]:
  "dispatch_queue (attach p cb s) = dispatch_queue s" "http (attach p cb s) = http s"
  "files (attach p cb s) = files s" "next_file (attach p cb s) = next_file s"
  "pending_tasks (attach p cb s) = pending_tasks s" "sent (attach p cb s) = sent s"
  "calls (attach p cb s) = calls s" "metadata (attach p cb s) = metadata s"
  "disk (attach p cb s) = disk s" "now (attach p cb s) = now s" "online (attach p cb s) = online s"
  by (simp_all add: attach_def defer_call_def)

lemma progress_rest [simp]:
  "dispatch_queue (progress p f s) = dispatch_queue s" "http (progress p f s) = http s"
  "files (progress p f s) = files s" "next_file (progress p f s) = next_file s"
  "pending_tasks (progress p f s) = pending_tasks s" "sent (progress p f s) = sent s"
  "calls (progress p f s) = calls s" "metadata (progress p f s) = metadata s"
  "disk (progress p f s) = disk s" "now (progress p f s) = now s" "online (progress p f s) = online s"
  by (simp_all add: progress_def Let_def)

lemma notify_fields [simp]:
  "promises (notify p v s) = promises s" "next_promise (notify p v s) = next_promise s"
  "timers (notify p v s) = timers s @ [RunNotify (origin (promises s) p) v]"
  "dispatch_queue (notify p v s) = dispatch_queue s" "http (notify p v s) = http s"
  "files (notify p v s) = files s" "next_file (notify p v s) = next_file s"
  "pending_tasks (notify p v s) = pending_tasks s" "sent (notify p v s) = sent s"
  "calls (notify p v s) = calls s" "metadata (notify p v s) = metadata s"
  "disk (notify p v s) = disk s" "now (notify p v s) = now s" "online (notify p v s) = online s"
  by (simp_all add: notify_def defer_call_def)

lemma tidy_derive:
  assumes "tidy s"
  shows "tidy (derive p s)"
proof -
  have g: "grows s (derive p s)" by (rule grows_derive)
  have t: "\<forall>t\<in>set (timers (derive p s)). task_ok (derive p s) t"
    using assms task_ok_grows [OF _ g] by (simp add: tidy_def)
  have c: "cb_ok (Suc (next_promise s)) cb" if "cb_ok (next_promise s) cb" for cb
    using that by (rule cb_ok_mono) simp
  show ?thesis
    unfolding tidy_def using assms t c by (auto simp: tidy_def less_Suc_eq)
qed

lemma tidy_attach:
  assumes "tidy s" and "cb_src cb = p" and "cb_ok (next_promise s) cb"
  shows "tidy (attach p cb s)"
proof -
  have g: "grows s (attach p cb s)" by (rule grows_attach)
  have p: "pstate (promises s p) \<noteq> None \<Longrightarrow> p < next_promise s"
    using assms(1) unfolding tidy_def by (meson not_le)
  have t: "\<forall>t\<in>set (timers (attach p cb s)). task_ok (attach p cb s) t"
    using assms p task_ok_grows [OF _ g] unfolding tidy_def by auto
  show ?thesis
    unfolding tidy_def using assms t by (auto simp: tidy_def)
qed

lemma tidy_progress:
  assumes "tidy s" and "progress_ok f"
  shows "tidy (progress p f s)"
proof -
  have g: "grows s (progress p f s)" by (rule grows_progress)
  have t: "\<forall>t\<in>set (timers (progress p f s)). task_ok (progress p f s) t"
    using assms task_ok_grows [OF _ g] by (simp add: tidy_def)
  have pr: "\<forall>g\<in>set l. progress_ok g" if "progress_fns (promises (progress p f s) q) = Some l" for q l
  proof (cases "q = origin (promises s) p")
    case True
    then show ?thesis
      using that assms by (cases "progress_fns (promises s q)") (auto simp: tidy_def)
  next
    case False
    then show ?thesis using that assms by (simp add: tidy_def)
  qed
  show ?thesis
    unfolding tidy_def using assms(1) t pr by (simp add: tidy_def)
qed

lemma tidy_then_promise:
  assumes "tidy s" and "fn_ok (next_promise s) a" and "fn_ok (next_promise s) b"
    and "\<forall>f. c = Some f \<longrightarrow> progress_ok f"
  shows "tidy (snd (then_promise p a b c s))"
proof -
  have 1: "tidy (derive p s)" using assms(1) by (rule tidy_derive)
  have "cb_ok (next_promise (derive p s)) (CallCallbacks p a b (next_promise s))"
    using assms(2,3) by (auto intro: fn_ok_mono)
  from tidy_attach [OF 1 _ this] have 2: "tidy (attach p (CallCallbacks p a b (next_promise s)) (derive p s))"
    by simp
  show ?thesis
    unfolding snd_then_promise using 2 assms(4) by (cases c) (simp_all add: subscribe_def tidy_progress)
qed

lemma tidy_set_promise:
  assumes "tidy s" and "p < next_promise s" and "b \<noteq> None"
  shows "tidy (set_promise p b vs s)"
proof -
  have g: "grows s (set_promise p b vs s)" by (rule grows_set_promise)
  have t: "\<forall>t\<in>set (timers (set_promise p b vs s)). task_ok (set_promise p b vs s) t"
    using assms task_ok_grows [OF _ g] by (auto simp: tidy_def)
  show ?thesis
    unfolding tidy_def using assms t by (auto simp: tidy_def)
qed

lemma tidy_notify: "tidy s \<Longrightarrow> tidy (notify p v s)"
  using task_ok_grows [OF _ grows_notify] by (auto simp: tidy_def)

lemma tidy_pinkySwear: "tidy s \<Longrightarrow> tidy (snd (pinkySwear s))"
proof -
  assume a: "tidy s"
  have g: "grows s (snd (pinkySwear s))" by (rule grows_pinkySwear)
  have t: "\<forall>t\<in>set (timers (snd (pinkySwear s))). task_ok (snd (pinkySwear s)) t"
    using a task_ok_grows [OF _ g] by (simp add: tidy_def pinkySwear_def)
  have c: "cb_ok (Suc (next_promise s)) cb" if "cb_ok (next_promise s) cb" for cb
    using that by (rule cb_ok_mono) simp
  show ?thesis
    unfolding tidy_def using a t c by (auto simp: tidy_def pinkySwear_def less_Suc_eq)
qed

lemma tidy_dispatchNextTask: "tidy s \<Longrightarrow> tidy (dispatchNextTask env s)"
proof (cases "dispatch_queue s")
  case Nil
  then show "tidy s \<Longrightarrow> ?thesis" by (simp add: dispatchNextTask_def)
next
  case (Cons t rest)
  assume a: "tidy s"
  then have "tidy (s\<lparr>dispatch_queue := rest\<rparr>)" "t < next_promise s"
    using Cons by (simp_all add: tidy_def)
  then have "tidy (set_promise t (Some True) [Undefined] (s\<lparr>dispatch_queue := rest\<rparr>))"
    by (intro tidy_set_promise) simp_all
  then show ?thesis using a Cons by (simp add: dispatchNextTask_def resolve_def)
qed


lemma tidy_http: "tidy s \<Longrightarrow> \<forall>c\<in>set h. snd c < next_promise s \<Longrightarrow> tidy (s\<lparr>http := h\<rparr>)"
  by (simp add: tidy_def)

lemma tidy_apply_fn:
  assumes "tidy s" and "fn_ok (next_promise s) (Some f)"
  shows "tidy (snd (apply_fn env f vs s))"
proof (cases f)
  case (SpawnFn u)
  have "tidy (snd (pinkySwear s))" using assms(1) by (rule tidy_pinkySwear)
  then have "tidy (spawnHTTPClient u (next_promise s) (snd (pinkySwear s)))"
    unfolding spawnHTTPClient_def
    by (auto simp: tidy_def pinkySwear_def less_Suc_eq)
  then show ?thesis using SpawnFn by (simp add: case_prod_unfold)
next
  case (WriteFn u x)
  then show ?thesis
    using assms(1)
    by (simp add: case_prod_unfold Let_def write_file_def save_def updateLastUsedAt_def)
next
  case (FinFn x)
  then show ?thesis using assms(1) by (simp add: tidy_dispatchNextTask)
next
  case (AdoptFulfil q)
  then show ?thesis using assms by (simp add: tidy_set_promise)
next
  case (AdoptReject q)
  then show ?thesis using assms by (simp add: tidy_set_promise)
next
  case (AdoptNotify q)
  then show ?thesis using assms by (simp add: tidy_notify)
qed (use assms in simp_all)

lemma tidy_callCallbacks:
  assumes "tidy s" and "cb_ok (next_promise s) cb" and "cb_src cb < next_promise s"
    and "pstate (promises s (cb_src cb)) \<noteq> None"
  shows "tidy (callCallbacks env cb s)"
proof (cases cb)
  case (CallCallbacks p onF onR np)
  with assms have ok: "np < next_promise s" "fn_ok (next_promise s) onF" "fn_ok (next_promise s) onR"
    and st: "pstate (promises s p) \<noteq> None" by simp_all
  show ?thesis
  proof (cases "if pstate (promises s p) = Some True then onF else onR")
    case None
    then show ?thesis
      using CallCallbacks st ok assms(1) by (simp add: callCallbacks_def tidy_set_promise)
  next
    case (Some f)
    then have fok: "fn_ok (next_promise s) (Some f)" using ok by (auto split: if_splits)
    obtain r s1 where a: "apply_fn env f (pvalues (promises s p)) s = (r, s1)"
      by (cases "apply_fn env f (pvalues (promises s p)) s")
    then have w1: "tidy s1" and g1: "grows s s1"
      using tidy_apply_fn [OF assms(1) fok, of env "pvalues (promises s p)"]
        grows_apply_fn [of s env f "pvalues (promises s p)"] by simp_all
    then have np: "np < next_promise s1" using ok by (simp add: grows_def)
    have "tidy (set_promise np (Some b) vs s1)" for b vs
      using w1 np by (simp add: tidy_set_promise)
    moreover have "tidy (snd (then_promise q (Some (AdoptFulfil np)) (Some (AdoptReject np))
        (Some (AdoptNotify np)) s1))" for q
      using w1 np by (intro tidy_then_promise) simp_all
    ultimately show ?thesis
      using CallCallbacks Some a
      by (auto simp: callCallbacks_def split: outcome.splits val.splits)
  qed
qed

lemma tidy_run_deferred:
  assumes "tidy s"
    and "\<forall>cb\<in>set cbs. cb_ok (next_promise s) cb \<and> cb_src cb < next_promise s \<and>
           pstate (promises s (cb_src cb)) \<noteq> None"
  shows "tidy (run_deferred env cbs s)"
  using assms
proof (induction cbs arbitrary: s)
  case Nil
  then show ?case by simp
next
  case (Cons cb cbs)
  let ?s1 = "callCallbacks env cb s"
  have w: "tidy ?s1" using Cons.prems by (intro tidy_callCallbacks) simp_all
  have g: "grows s ?s1" by (rule grows_callCallbacks)
  have "\<forall>cb\<in>set cbs. cb_ok (next_promise ?s1) cb \<and> cb_src cb < next_promise ?s1 \<and>
           pstate (promises ?s1 (cb_src cb)) \<noteq> None"
    using Cons.prems(2) g by (auto simp: grows_def intro: cb_ok_mono)
  from Cons.IH [OF w this] show ?case by simp
qed

lemma tidy_run_progress:
  assumes "tidy s" and "\<forall>f\<in>set fs. progress_ok f"
  shows "tidy (run_progress env fs v s)"
  using assms
proof (induction fs arbitrary: s)
  case Nil
  then show ?case by simp
next
  case (Cons f fs)
  have "fn_ok (next_promise s) (Some f)" using Cons.prems(2) by (cases f) simp_all
  from tidy_apply_fn [OF Cons.prems(1) this, of env "[v]"]
  show ?case using Cons by (auto split: prod.splits outcome.splits)
qed

lemma tidy_pop: "tidy s \<Longrightarrow> timers s = t # ts \<Longrightarrow> tidy (s\<lparr>timers := ts\<rparr>)"
  by (simp add: tidy_def)

lemma tidy_timeout:
  assumes "tidy s"
  shows "tidy (step env Timeout s)"
proof (cases "timers s")
  case Nil
  then show ?thesis using assms by (simp add: step_def)
next
  case (Cons t ts)
  let ?s0 = "s\<lparr>timers := ts\<rparr>"
  have w0: "tidy ?s0" using assms Cons by (rule tidy_pop)
  have t: "task_ok s t" using assms Cons by (simp add: tidy_def)
  have "tidy (run_task env t ?s0)"
  proof (cases t)
    case (RunDeferred p)
    with t have p: "p < next_promise s" "pstate (promises s p) \<noteq> None" by simp_all
    then have "\<forall>cb\<in>set (deferred (promises s p)). cb_ok (next_promise ?s0) cb \<and>
        cb_src cb < next_promise ?s0 \<and> pstate (promises ?s0 (cb_src cb)) \<noteq> None"
      using assms by (auto simp: tidy_def)
    from tidy_run_deferred [OF w0 this] show ?thesis using RunDeferred by (simp add: run_task_def)
  next
    case (RunCallback cb)
    with t w0 show ?thesis by (simp add: run_task_def tidy_callCallbacks)
  next
    case (RunNotify p v)
    show ?thesis
    proof (cases "progress_fns (promises s p)")
      case None
      then show ?thesis using RunNotify w0 by (simp add: run_task_def)
    next
      case (Some fns)
      then have "\<forall>f\<in>set fns. progress_ok f" using assms by (auto simp: tidy_def)
      from tidy_run_progress [OF w0 this] show ?thesis using RunNotify Some by (simp add: run_task_def)
    qed
  qed
  then show ?thesis using Cons by (simp add: step_def)
qed


lemma fn_ok_user [simp]: "fn_ok n (map_option User x)"
  by (cases x) simp_all

lemma tidy_attachCallbacks: "tidy s \<Longrightarrow> tidy (snd (attachCallbacks a p s))"
  unfolding attachCallbacks_def
  by (auto intro!: tidy_then_promise split: option.splits)

lemma tidy_fromURL: "tidy s \<Longrightarrow> tidy (snd (fromURL env u s))"
  by (simp add: fromURL_def File_def Let_def)

lemma tidy_requestDispatch: "tidy s \<Longrightarrow> tidy (snd (requestDispatch s))"
proof -
  assume a: "tidy s"
  have "tidy (snd (pinkySwear s))" using a by (rule tidy_pinkySwear)
  then show ?thesis
    by (auto simp: requestDispatch_def case_prod_unfold tidy_def pinkySwear_def less_Suc_eq)
qed

lemma tidy_chain: "tidy s \<Longrightarrow> tidy (chain u f s)"
  unfolding chain_def
  by (intro tidy_then_promise tidy_requestDispatch) simp_all

lemma tidy_start_download: "tidy s \<Longrightarrow> tidy (snd (start_download env a f s))"
  unfolding start_download_steps
  by (intro tidy_attachCallbacks tidy_dispatchNextTask) (simp add: mark_pending_def tidy_chain)

lemma download_not_in_flight:
  assumes "pending_tasks s (idFromUrl env (url a)) = None"
  shows "download env a s =
      (if fresh_in_cache env (idFromUrl env (url a)) s
       then attachCallbacks a (next_promise s)
              (set_promise (next_promise s) (Some True) [FileV (next_file s)]
                (snd (pinkySwear (save (next_file s)
                   (updateLastUsedAt (next_file s) (snd (fromURL env (url a) s)))))))
       else if \<not> online s
       then attachCallbacks a (next_promise s)
              (set_promise (next_promise s) (Some False) [Str ''Network offline'']
                (snd (pinkySwear (snd (fromURL env (url a) s)))))
       else start_download env a (next_file s) (snd (fromURL env (url a) s)))"
  using assms fromURL_cached [of env "url a" s]
  by (simp add: download_def case_prod_unfold Let_def pinkySwear_def save_def
      updateLastUsedAt_def)

lemma tidy_download:
  assumes "tidy s"
  shows "tidy (snd (download env a s))"
proof (cases "pending_tasks s (idFromUrl env (url a))")
  case (Some p)
  show ?thesis
    unfolding download_in_flight [OF Some]
    by (intro tidy_attachCallbacks tidy_fromURL assms)
next
  case None
  let ?s1 = "snd (fromURL env (url a) s)"
  have w1: "tidy ?s1" using assms by (rule tidy_fromURL)
  have a: "tidy (snd (attachCallbacks a (next_promise s)
       (set_promise (next_promise s) (Some b) vs (snd (pinkySwear x)))))"
    if "tidy x" "next_promise x = next_promise s" for x b vs
    using that by (intro tidy_attachCallbacks tidy_set_promise tidy_pinkySwear)
      (simp_all add: pinkySwear_def)
  have s: "tidy (save f (updateLastUsedAt f ?s1))" for f
    using w1 by (simp add: save_def updateLastUsedAt_def)
  have n: "next_promise (save f (updateLastUsedAt f ?s1)) = next_promise s" for f
    by (simp add: save_def updateLastUsedAt_def)
  show ?thesis
    unfolding download_not_in_flight [OF None]
    using a [OF s n] a [OF w1] tidy_start_download [OF w1] by simp
qed

lemma tidy_step:
  assumes "tidy s"
  shows "tidy (step env a s)"
proof (cases a)
  case (Download ar)
  then show ?thesis using assms by (simp add: step_def tidy_download)
next
  case Timeout
  then show ?thesis using assms by (simp add: tidy_timeout)
next
  case (HttpLoad i d)
  have "tidy (resolve (snd (http s ! i)) v (s\<lparr>http := remove_nth i (http s)\<rparr>))" if "i < length (http s)" for v
    unfolding resolve_def
  proof (intro tidy_set_promise tidy_http assms)
    show "\<forall>c\<in>set (remove_nth i (http s)). snd c < next_promise s"
      using assms by (auto simp: tidy_def remove_nth_def dest: in_set_takeD in_set_dropD)
    show "snd (http s ! i) < next_promise (s\<lparr>http := remove_nth i (http s)\<rparr>)"
      using assms that by (simp add: tidy_def)
  qed simp
  then show ?thesis using HttpLoad assms by (simp add: step_def)
next
  case (HttpError i e)
  have "tidy (reject (snd (http s ! i)) v (s\<lparr>http := remove_nth i (http s)\<rparr>))" if "i < length (http s)" for v
    unfolding reject_def
  proof (intro tidy_set_promise tidy_http assms)
    show "\<forall>c\<in>set (remove_nth i (http s)). snd c < next_promise s"
      using assms by (auto simp: tidy_def remove_nth_def dest: in_set_takeD in_set_dropD)
    show "snd (http s ! i) < next_promise (s\<lparr>http := remove_nth i (http s)\<rparr>)"
      using assms that by (simp add: tidy_def)
  qed simp
  then show ?thesis using HttpError assms by (simp add: step_def)
next
  case (HttpDataStream i v)
  then show ?thesis using assms by (simp add: step_def tidy_notify)
next
  case (Clock d)
  then show ?thesis using assms by (simp add: step_def)
next
  case (Network b)
  then show ?thesis using assms by (simp add: step_def)
qed

lemma reachable_wf: "reachable env s \<Longrightarrow> tidy s"
  by (induction rule: reachable.induct) (simp_all add: tidy_init tidy_step)

section \<open>How the promises hang together\<close>

lemma tidy_stored:
  "tidy s \<Longrightarrow> cb \<in> stored s \<Longrightarrow> cb_ok (next_promise s) cb \<and> cb_src cb < next_promise s"
  unfolding tidy_def stored_def by fastforce

lemma adopt_linked_grows:
  "adopt_linked s h \<Longrightarrow> fn_ok (next_promise s) h \<Longrightarrow> grows s s' \<Longrightarrow> adopt_linked s' h"
  by (cases "(s, h)" rule: adopt_linked.cases) (auto simp: grows_def)

lemma cb_linked_grows:
  "cb_linked s cb \<Longrightarrow> cb_ok (next_promise s) cb \<Longrightarrow> grows s s' \<Longrightarrow> cb_linked s' cb"
  by (cases cb) (auto simp: grows_def intro: adopt_linked_grows)

lemma stored_derive [simp]: "stored (derive p s) = stored s"
  unfolding stored_def by (auto simp: less_Suc_eq) (metis less_irrefl)

lemma stored_pinkySwear [simp]: "stored (snd (pinkySwear s)) = stored s"
  unfolding stored_def by (auto simp: pinkySwear_def less_Suc_eq) (metis less_irrefl)

lemma stored_attach: "stored (attach p cb s) \<subseteq> insert cb (stored s)"
  by (auto simp: stored_def split: if_splits)

lemma stored_set_promise [simp]: "stored (set_promise p b vs s) = stored s"
  by (auto simp: stored_def)

lemma stored_progress [simp]: "stored (progress p f s) = stored s"
  by (auto simp: stored_def)

lemma stored_subscribe [simp]: "stored (subscribe p c s) = stored s"
  by (cases c) (simp_all add: subscribe_def)

lemma stored_notify [simp]: "stored (notify p v s) = stored s"
  by (auto simp: stored_def)

lemma stored_other_fields [simp]:
  "stored (s\<lparr>files := fs\<rparr>) = stored s"
  "stored (s\<lparr>next_file := nf\<rparr>) = stored s"
  "stored (s\<lparr>pending_tasks := pt\<rparr>) = stored s"
  "stored (s\<lparr>now := n\<rparr>) = stored s"
  "stored (s\<lparr>online := b\<rparr>) = stored s"
  "stored (s\<lparr>metadata := m\<rparr>) = stored s"
  "stored (s\<lparr>disk := d\<rparr>) = stored s"
  "stored (s\<lparr>calls := c\<rparr>) = stored s"
  "stored (s\<lparr>sent := se\<rparr>) = stored s"
  "stored (s\<lparr>http := h\<rparr>) = stored s"
  "stored (s\<lparr>dispatch_queue := q\<rparr>) = stored s"
  by (simp_all add: stored_def)

lemma adopt_linked_other_fields [simp]:
  "adopt_linked (s\<lparr>files := fs\<rparr>) h = adopt_linked s h"
  "adopt_linked (s\<lparr>next_file := nf\<rparr>) h = adopt_linked s h"
  "adopt_linked (s\<lparr>pending_tasks := pt\<rparr>) h = adopt_linked s h"
  "adopt_linked (s\<lparr>now := n\<rparr>) h = adopt_linked s h"
  "adopt_linked (s\<lparr>online := b\<rparr>) h = adopt_linked s h"
  "adopt_linked (s\<lparr>metadata := m\<rparr>) h = adopt_linked s h"
  "adopt_linked (s\<lparr>disk := d\<rparr>) h = adopt_linked s h"
  "adopt_linked (s\<lparr>calls := c\<rparr>) h = adopt_linked s h"
  "adopt_linked (s\<lparr>sent := se\<rparr>) h = adopt_linked s h"
  "adopt_linked (s\<lparr>http := hh\<rparr>) h = adopt_linked s h"
  "adopt_linked (s\<lparr>dispatch_queue := q\<rparr>) h = adopt_linked s h"
  "adopt_linked (s\<lparr>timers := ts\<rparr>) h = adopt_linked s h"
  by (cases "(s, h)" rule: adopt_linked.cases; simp)+

lemma cb_linked_other_fields [simp]:
  "cb_linked (s\<lparr>files := fs\<rparr>) cb = cb_linked s cb"
  "cb_linked (s\<lparr>next_file := nf\<rparr>) cb = cb_linked s cb"
  "cb_linked (s\<lparr>pending_tasks := pt\<rparr>) cb = cb_linked s cb"
  "cb_linked (s\<lparr>now := n\<rparr>) cb = cb_linked s cb"
  "cb_linked (s\<lparr>online := b\<rparr>) cb = cb_linked s cb"
  "cb_linked (s\<lparr>metadata := m\<rparr>) cb = cb_linked s cb"
  "cb_linked (s\<lparr>disk := d\<rparr>) cb = cb_linked s cb"
  "cb_linked (s\<lparr>calls := c\<rparr>) cb = cb_linked s cb"
  "cb_linked (s\<lparr>sent := se\<rparr>) cb = cb_linked s cb"
  "cb_linked (s\<lparr>http := hh\<rparr>) cb = cb_linked s cb"
  "cb_linked (s\<lparr>dispatch_queue := q\<rparr>) cb = cb_linked s cb"
  "cb_linked (s\<lparr>timers := ts\<rparr>) cb = cb_linked s cb"
  by (cases cb; simp)+

lemma linked_other_fields [simp]:
  "linked (s\<lparr>files := fs\<rparr>) = linked s"
  "linked (s\<lparr>next_file := nf\<rparr>) = linked s"
  "linked (s\<lparr>pending_tasks := pt\<rparr>) = linked s"
  "linked (s\<lparr>now := n\<rparr>) = linked s"
  "linked (s\<lparr>online := b\<rparr>) = linked s"
  "linked (s\<lparr>metadata := m\<rparr>) = linked s"
  "linked (s\<lparr>disk := d\<rparr>) = linked s"
  "linked (s\<lparr>calls := c\<rparr>) = linked s"
  "linked (s\<lparr>sent := se\<rparr>) = linked s"
  by (simp_all add: linked_def)

lemma linked_init: "linked (init md dk t on)"
  by (simp add: linked_def init_def stored_def)

text \<open>The general step: what was stored stays linked, and what is new must be.\<close>

lemma linked_stored_step:
  assumes "tidy s" and "\<forall>cb\<in>stored s. cb_linked s cb" and "grows s s'"
    and "\<forall>cb\<in>stored s' - stored s. cb_linked s' cb"
  shows "\<forall>cb\<in>stored s'. cb_linked s' cb"
  using assms tidy_stored cb_linked_grows by blast


lemma cb_linked_attach [simp]: "cb_linked (attach p c s) cb = cb_linked s cb"
proof -
  have "adopt_linked (attach p c s) h = adopt_linked s h" for h
    by (cases "(s, h)" rule: adopt_linked.cases) simp_all
  then show ?thesis by (cases cb) simp
qed

lemma cb_linked_progress [simp]: "cb_linked (progress p f s) cb = cb_linked s cb"
proof -
  have "adopt_linked (progress p f s) h = adopt_linked s h" for h
    by (cases "(s, h)" rule: adopt_linked.cases) simp_all
  then show ?thesis by (cases cb) simp
qed

lemma cb_linked_notify [simp]: "cb_linked (notify p v s) cb = cb_linked s cb"
proof -
  have "adopt_linked (notify p v s) h = adopt_linked s h" for h
    by (cases "(s, h)" rule: adopt_linked.cases) simp_all
  then show ?thesis by (cases cb) simp
qed

lemma linked_derive:
  assumes "tidy s" and "linked s"
  shows "linked (derive p s)"
proof -
  have g: "grows s (derive p s)" by (rule grows_derive)
  have st: "\<forall>cb\<in>stored (derive p s). cb_linked (derive p s) cb"
    using assms tidy_stored cb_linked_grows [OF _ _ g] by (simp add: linked_def)
  have un: "pstate (promises s (next_promise s)) = None" using assms(1) by (simp add: tidy_def)
  have d: "\<forall>q<next_promise (derive p s). \<forall>p'. pstate (promises (derive p s) q) \<noteq> None \<longrightarrow>
      forward (promises (derive p s) q) = Some p' \<longrightarrow> pstate (promises (derive p s) p') \<noteq> None"
    using assms(2) un unfolding linked_def by (auto simp: less_Suc_eq)
  have q: "\<forall>t\<in>set (dispatch_queue s). t \<noteq> next_promise s"
    and h: "\<forall>c\<in>set (http s). snd c \<noteq> next_promise s"
    using assms(1) by (auto simp: tidy_def)
  show ?thesis
    unfolding linked_def using st d q h assms(2) by (simp add: linked_def)
qed

lemma linked_pinkySwear:
  assumes "tidy s" and "linked s"
  shows "linked (snd (pinkySwear s))"
proof -
  let ?s' = "snd (pinkySwear s)"
  have g: "grows s ?s'" by (rule grows_pinkySwear)
  have st: "\<forall>cb\<in>stored ?s'. cb_linked ?s' cb"
    using assms tidy_stored cb_linked_grows [OF _ _ g] by (simp add: linked_def)
  have un: "pstate (promises s (next_promise s)) = None" using assms(1) by (simp add: tidy_def)
  have d: "\<forall>q<next_promise ?s'. \<forall>p'. pstate (promises ?s' q) \<noteq> None \<longrightarrow>
      forward (promises ?s' q) = Some p' \<longrightarrow> pstate (promises ?s' p') \<noteq> None"
    using assms(2) un unfolding linked_def by (auto simp: less_Suc_eq pinkySwear_def)
  have q: "\<forall>t\<in>set (dispatch_queue s). t \<noteq> next_promise s"
    and h: "\<forall>c\<in>set (http s). snd c \<noteq> next_promise s"
    using assms(1) by (auto simp: tidy_def)
  show ?thesis
    unfolding linked_def using st d q h assms(2) by (simp add: linked_def) (simp add: pinkySwear_def)
qed

lemma linked_attach:
  assumes "linked s" and "cb_linked s cb"
  shows "linked (attach p cb s)"
proof -
  have "\<forall>c\<in>stored (attach p cb s). cb_linked s c"
    using assms stored_attach [of p cb s] by (auto simp: linked_def)
  then show ?thesis unfolding linked_def using assms(1) by (simp add: linked_def)
qed

lemma linked_progress: "linked s \<Longrightarrow> linked (progress p f s)"
  by (simp add: linked_def)

lemma linked_subscribe: "linked s \<Longrightarrow> linked (subscribe p c s)"
  by (cases c) (simp_all add: subscribe_def linked_progress)

lemma linked_notify: "linked s \<Longrightarrow> linked (notify p v s)"
  by (simp add: linked_def)

lemma linked_then_promise:
  assumes "tidy s" and "linked s" and "adopt_linked s a" and "adopt_linked s b"
    and "fn_ok (next_promise s) a" and "fn_ok (next_promise s) b"
  shows "linked (snd (then_promise p a b c s))"
proof -
  have g: "grows s (derive p s)" by (rule grows_derive)
  have 1: "linked (derive p s)" using assms(1,2) by (rule linked_derive)
  have "cb_linked (derive p s) (CallCallbacks p a b (next_promise s))"
    using adopt_linked_grows [OF assms(3) assms(5) g] adopt_linked_grows [OF assms(4) assms(6) g]
    by simp
  from linked_attach [OF 1 this] show ?thesis
    unfolding snd_then_promise by (rule linked_subscribe)
qed

lemma linked_set_promise:
  assumes "linked s" and "b \<noteq> None"
    and "\<forall>q. forward (promises s p) = Some q \<longrightarrow> pstate (promises s q) \<noteq> None"
    and "p \<notin> set (dispatch_queue s)" and "p \<notin> snd ` set (http s)"
  shows "linked (set_promise p b vs s)"
proof -
  let ?s' = "set_promise p b vs s"
  have al: "adopt_linked ?s' h" if "adopt_linked s h" for h
    using that assms(2) by (cases "(s, h)" rule: adopt_linked.cases) auto
  have "cb_linked ?s' cb" if "cb_linked s cb" for cb
    using that al by (cases cb) simp
  then have st: "\<forall>cb\<in>stored ?s'. cb_linked ?s' cb" using assms(1) by (simp add: linked_def)
  have d: "\<forall>q<next_promise ?s'. \<forall>p'. pstate (promises ?s' q) \<noteq> None \<longrightarrow>
      forward (promises ?s' q) = Some p' \<longrightarrow> pstate (promises ?s' p') \<noteq> None"
    using assms(1,2,3) unfolding linked_def by auto
  show ?thesis
    unfolding linked_def using st d assms(1,4,5) by (auto simp: linked_def)
qed


lemma linked_pop: "linked s \<Longrightarrow> timers s = t # ts \<Longrightarrow> linked (s\<lparr>timers := ts\<rparr>)"
  by (auto simp: linked_def stored_def)

lemma linked_dispatchNextTask:
  assumes "linked s"
  shows "linked (dispatchNextTask env s)"
proof (cases "dispatch_queue s")
  case Nil
  then show ?thesis using assms by (simp add: dispatchNextTask_def)
next
  case (Cons t rest)
  have 1: "linked (s\<lparr>dispatch_queue := rest\<rparr>)"
    using assms Cons by (auto simp: linked_def)
  have "linked (set_promise t (Some True) [Undefined] (s\<lparr>dispatch_queue := rest\<rparr>))"
    using assms Cons by (intro linked_set_promise 1) (auto simp: linked_def)
  then show ?thesis using assms Cons by (simp add: dispatchNextTask_def resolve_def)
qed

lemma linked_spawnHTTPClient:
  assumes "tidy s" and "linked s"
  shows "linked (spawnHTTPClient u (next_promise s) (snd (pinkySwear s)))"
proof -
  have 1: "linked (snd (pinkySwear s))" using assms by (rule linked_pinkySwear)
  have q: "\<forall>t\<in>set (dispatch_queue s). t \<noteq> next_promise s"
    and h: "\<forall>c\<in>set (http s). snd c \<noteq> next_promise s"
    using assms(1) by (auto simp: tidy_def)
  have f: "forward (promises (snd (pinkySwear s)) (next_promise s)) = None"
    "pstate (promises (snd (pinkySwear s)) (next_promise s)) = None"
    "dispatch_queue (snd (pinkySwear s)) = dispatch_queue s"
    "http (snd (pinkySwear s)) = http s"
    by (simp_all add: pinkySwear_def)
  show ?thesis
    using 1 q h f unfolding spawnHTTPClient_def linked_def by auto
qed

lemma linked_apply_fn:
  assumes "tidy s" and "linked s" and "adopt_linked s (Some f)"
  shows "linked (snd (apply_fn env f vs s))"
proof (cases f)
  case (SpawnFn u)
  then show ?thesis using linked_spawnHTTPClient [OF assms(1,2)] by (simp add: case_prod_unfold)
next
  case (WriteFn u x)
  then show ?thesis
    using assms(2)
    by (simp add: case_prod_unfold Let_def write_file_def save_def updateLastUsedAt_def)
next
  case (FinFn x)
  then show ?thesis using assms(2) by (simp add: linked_dispatchNextTask)
next
  case (AdoptFulfil q)
  then have "forward (promises s q) \<noteq> None" using assms(3) by auto
  then have "q \<notin> set (dispatch_queue s)" "q \<notin> snd ` set (http s)"
    using assms(2) by (auto simp: linked_def)
  then show ?thesis using AdoptFulfil assms by (auto intro!: linked_set_promise)
next
  case (AdoptReject q)
  then have "forward (promises s q) \<noteq> None" using assms(3) by auto
  then have "q \<notin> set (dispatch_queue s)" "q \<notin> snd ` set (http s)"
    using assms(2) by (auto simp: linked_def)
  then show ?thesis using AdoptReject assms by (auto intro!: linked_set_promise)
next
  case (AdoptNotify q)
  then show ?thesis using assms by (simp add: linked_notify)
qed (use assms in simp_all)

lemma linked_callCallbacks:
  assumes "tidy s" and "linked s" and "cb_ok (next_promise s) cb"
    and "cb_src cb < next_promise s" and "pstate (promises s (cb_src cb)) \<noteq> None"
    and "cb_linked s cb"
  shows "linked (callCallbacks env cb s)"
proof (cases cb)
  case (CallCallbacks p onF onR np)
  with assms have ok: "np < next_promise s" "fn_ok (next_promise s) onF" "fn_ok (next_promise s) onR"
    and st: "pstate (promises s p) \<noteq> None" and p: "p < next_promise s"
    and fw: "forward (promises s np) = Some p"
    and al: "adopt_linked s onF" "adopt_linked s onR" by simp_all
  have out: "np \<notin> set (dispatch_queue x)" "np \<notin> snd ` set (http x)"
    if "linked x" "forward (promises x np) = Some p" for x
    using that by (auto simp: linked_def)
  show ?thesis
  proof (cases "if pstate (promises s p) = Some True then onF else onR")
    case None
    then show ?thesis
      using CallCallbacks st fw assms(2) out [OF assms(2) fw]
      by (auto simp: callCallbacks_def intro!: linked_set_promise)
  next
    case (Some f)
    then have fok: "fn_ok (next_promise s) (Some f)" and fl: "adopt_linked s (Some f)"
      using ok al by (auto split: if_splits)
    obtain r s1 where a: "apply_fn env f (pvalues (promises s p)) s = (r, s1)"
      by (cases "apply_fn env f (pvalues (promises s p)) s")
    then have w1: "tidy s1" and g1: "grows s s1" and l1: "linked s1"
      using tidy_apply_fn [OF assms(1) fok, of env "pvalues (promises s p)"]
        grows_apply_fn [of s env f "pvalues (promises s p)"]
        linked_apply_fn [OF assms(1,2) fl, of env "pvalues (promises s p)"] by simp_all
    then have np: "np < next_promise s1" and p1: "p < next_promise s1"
      and fw1: "forward (promises s1 np) = Some p" and st1: "pstate (promises s1 p) \<noteq> None"
      using ok p fw st by (auto simp: grows_def)
    have "linked (set_promise np (Some b) vs s1)" for b vs
      using l1 fw1 st1 out [OF l1 fw1] by (auto intro!: linked_set_promise)
    moreover have "linked (snd (then_promise q (Some (AdoptFulfil np)) (Some (AdoptReject np))
        (Some (AdoptNotify np)) s1))" for q
      using w1 l1 np p1 fw1 st1 by (intro linked_then_promise) auto
    ultimately show ?thesis
      using CallCallbacks Some a
      by (auto simp: callCallbacks_def split: outcome.splits val.splits)
  qed
qed

lemma linked_run_deferred:
  assumes "tidy s" and "linked s"
    and "\<forall>cb\<in>set cbs. cb_ok (next_promise s) cb \<and> cb_src cb < next_promise s \<and>
           pstate (promises s (cb_src cb)) \<noteq> None \<and> cb_linked s cb"
  shows "linked (run_deferred env cbs s)"
  using assms
proof (induction cbs arbitrary: s)
  case Nil
  then show ?case by simp
next
  case (Cons cb cbs)
  let ?s1 = "callCallbacks env cb s"
  have w: "tidy ?s1" using Cons.prems by (intro tidy_callCallbacks) simp_all
  have l: "linked ?s1" using Cons.prems by (intro linked_callCallbacks) simp_all
  have g: "grows s ?s1" by (rule grows_callCallbacks)
  have "\<forall>cb\<in>set cbs. cb_ok (next_promise ?s1) cb \<and> cb_src cb < next_promise ?s1 \<and>
           pstate (promises ?s1 (cb_src cb)) \<noteq> None \<and> cb_linked ?s1 cb"
    using Cons.prems(3) g cb_linked_grows [OF _ _ g]
    by (auto simp: grows_def intro: cb_ok_mono)
  from Cons.IH [OF w l this] show ?case by simp
qed

lemma linked_run_progress:
  assumes "tidy s" and "linked s" and "\<forall>f\<in>set fs. progress_ok f"
  shows "linked (run_progress env fs v s)"
  using assms
proof (induction fs arbitrary: s)
  case Nil
  then show ?case by simp
next
  case (Cons f fs)
  have ok: "fn_ok (next_promise s) (Some f)" "adopt_linked s (Some f)"
    using Cons.prems(3) by (cases f; simp)+
  from tidy_apply_fn [OF Cons.prems(1) ok(1), of env "[v]"]
    linked_apply_fn [OF Cons.prems(1,2) ok(2), of env "[v]"]
  show ?case using Cons by (auto split: prod.splits outcome.splits)
qed

lemma linked_timeout:
  assumes "tidy s" and "linked s"
  shows "linked (step env Timeout s)"
proof (cases "timers s")
  case Nil
  then show ?thesis using assms by (simp add: step_def)
next
  case (Cons t ts)
  let ?s0 = "s\<lparr>timers := ts\<rparr>"
  have w0: "tidy ?s0" using assms(1) Cons by (rule tidy_pop)
  have l0: "linked ?s0" using assms(2) Cons by (rule linked_pop)
  have t: "task_ok s t" using assms Cons by (simp add: tidy_def)
  have "linked (run_task env t ?s0)"
  proof (cases t)
    case (RunDeferred p)
    with t have p: "p < next_promise s" "pstate (promises s p) \<noteq> None" by simp_all
    then have "set (deferred (promises s p)) \<subseteq> stored s" by (auto simp: stored_def)
    then have "\<forall>cb\<in>set (deferred (promises s p)). cb_ok (next_promise ?s0) cb \<and>
        cb_src cb < next_promise ?s0 \<and> pstate (promises ?s0 (cb_src cb)) \<noteq> None \<and>
        cb_linked ?s0 cb"
      using assms p by (auto simp: tidy_def linked_def)
    from linked_run_deferred [OF w0 l0 this] show ?thesis
      using RunDeferred by (simp add: run_task_def)
  next
    case (RunCallback cb)
    then have "cb \<in> stored s" using Cons by (simp add: stored_def)
    then have "cb_linked ?s0 cb" using assms(2) by (simp add: linked_def)
    with RunCallback t w0 l0 show ?thesis by (simp add: run_task_def linked_callCallbacks)
  next
    case (RunNotify p v)
    show ?thesis
    proof (cases "progress_fns (promises s p)")
      case None
      then show ?thesis using RunNotify l0 by (simp add: run_task_def)
    next
      case (Some fns)
      then have "\<forall>f\<in>set fns. progress_ok f" using assms by (auto simp: tidy_def)
      from linked_run_progress [OF w0 l0 this] show ?thesis
        using RunNotify Some by (simp add: run_task_def)
    qed
  qed
  then show ?thesis using Cons by (simp add: step_def)
qed

lemma adopt_linked_user [simp]: "adopt_linked s (map_option User x)"
  by (cases x) simp_all

lemma linked_attachCallbacks: "tidy s \<Longrightarrow> linked s \<Longrightarrow> linked (snd (attachCallbacks a p s))"
  unfolding attachCallbacks_def
  by (auto intro!: linked_then_promise)

lemma linked_fromURL: "linked s \<Longrightarrow> linked (snd (fromURL env u s))"
  by (simp add: fromURL_def File_def Let_def)

lemma linked_requestDispatch:
  assumes "tidy s" and "linked s"
  shows "linked (snd (requestDispatch s))"
proof -
  have 1: "linked (snd (pinkySwear s))" using assms by (rule linked_pinkySwear)
  have q: "\<forall>t\<in>set (dispatch_queue s). t \<noteq> next_promise s"
    and h: "\<forall>c\<in>set (http s). snd c \<noteq> next_promise s"
    using assms(1) by (auto simp: tidy_def)
  have f: "forward (promises (snd (pinkySwear s)) (next_promise s)) = None"
    "pstate (promises (snd (pinkySwear s)) (next_promise s)) = None"
    "dispatch_queue (snd (pinkySwear s)) = dispatch_queue s"
    "http (snd (pinkySwear s)) = http s"
    by (simp_all add: pinkySwear_def)
  show ?thesis
    using 1 q h f unfolding requestDispatch_def linked_def by (auto simp: case_prod_unfold)
qed

lemma linked_chain: "tidy s \<Longrightarrow> linked s \<Longrightarrow> linked (chain u f s)"
  unfolding chain_def
  by (intro linked_then_promise tidy_then_promise linked_requestDispatch tidy_requestDispatch)
    simp_all

lemma linked_start_download:
  "tidy s \<Longrightarrow> linked s \<Longrightarrow> linked (snd (start_download env a f s))"
  unfolding start_download_steps
  by (intro linked_attachCallbacks tidy_dispatchNextTask linked_dispatchNextTask)
    (simp_all add: mark_pending_def tidy_chain linked_chain)

lemma linked_download:
  assumes "tidy s" and "linked s"
  shows "linked (snd (download env a s))"
proof (cases "pending_tasks s (idFromUrl env (url a))")
  case (Some p)
  show ?thesis
    unfolding download_in_flight [OF Some]
    by (intro linked_attachCallbacks tidy_fromURL linked_fromURL assms)
next
  case None
  let ?s1 = "snd (fromURL env (url a) s)"
  have w1: "tidy ?s1" using assms(1) by (rule tidy_fromURL)
  have l1: "linked ?s1" using assms(2) by (rule linked_fromURL)
  have a: "linked (snd (attachCallbacks a (next_promise s)
       (set_promise (next_promise s) (Some b) vs (snd (pinkySwear x)))))"
    if "tidy x" "linked x" "next_promise x = next_promise s" for x b vs
  proof -
    let ?x = "snd (pinkySwear x)"
    have t: "tidy ?x" and l: "linked ?x"
      using that by (simp_all add: tidy_pinkySwear linked_pinkySwear)
    have "\<forall>t\<in>set (dispatch_queue x). t \<noteq> next_promise x"
      and "\<forall>c\<in>set (http x). snd c \<noteq> next_promise x"
      using that(1) by (auto simp: tidy_def)
    then have "linked (set_promise (next_promise s) (Some b) vs ?x)"
      using that(3) by (intro linked_set_promise l) (auto simp: pinkySwear_def)
    moreover have "tidy (set_promise (next_promise s) (Some b) vs ?x)"
      using that(3) by (intro tidy_set_promise t) (simp_all add: pinkySwear_def)
    ultimately show ?thesis by (rule linked_attachCallbacks [rotated])
  qed
  have s: "tidy (save f (updateLastUsedAt f ?s1))" "linked (save f (updateLastUsedAt f ?s1))" for f
    using w1 l1 by (simp_all add: save_def updateLastUsedAt_def)
  have n: "next_promise (save f (updateLastUsedAt f ?s1)) = next_promise s" for f
    by (simp add: save_def updateLastUsedAt_def)
  show ?thesis
    unfolding download_not_in_flight [OF None]
    using a [OF s n] a [OF w1 l1] linked_start_download [OF w1 l1] by simp
qed

lemma linked_http_done:
  assumes "linked s" and "i < length (http s)" and "b \<noteq> None"
  shows "linked (set_promise (snd (http s ! i)) b vs (s\<lparr>http := remove_nth i (http s)\<rparr>))"
proof -
  let ?c = "http s ! i"
  have c: "?c \<in> set (http s)" using assms(2) by simp
  have sub: "set (remove_nth i (http s)) \<subseteq> set (http s)"
    by (auto simp: remove_nth_def dest: in_set_takeD in_set_dropD)
  have "http s = take i (http s) @ ?c # drop (Suc i) (http s)"
    using assms(2) by (simp add: id_take_nth_drop)
  then have "map snd (http s) = map snd (take i (http s)) @ snd ?c # map snd (drop (Suc i) (http s))"
    by (metis list.simps(9) map_append)
  moreover have "distinct (map snd (http s))" using assms(1) by (simp add: linked_def)
  ultimately have d: "distinct (map snd (remove_nth i (http s)))"
    and n: "snd ?c \<notin> snd ` set (remove_nth i (http s))"
    unfolding remove_nth_def by (auto simp: image_Un)
  have 1: "linked (s\<lparr>http := remove_nth i (http s)\<rparr>)"
    using assms(1) sub d by (auto simp: linked_def)
  show ?thesis
    using assms(1,3) c n by (intro linked_set_promise 1) (auto simp: linked_def)
qed

lemma linked_step:
  assumes "tidy s" and "linked s"
  shows "linked (step env a s)"
proof (cases a)
  case (Download ar)
  then show ?thesis using assms by (simp add: step_def linked_download)
next
  case Timeout
  then show ?thesis using assms by (simp add: linked_timeout)
next
  case (HttpLoad i d)
  then show ?thesis using assms by (simp add: step_def resolve_def linked_http_done)
next
  case (HttpError i e)
  then show ?thesis using assms by (simp add: step_def reject_def linked_http_done)
next
  case (HttpDataStream i v)
  then show ?thesis using assms by (simp add: step_def linked_notify)
next
  case (Clock d)
  then show ?thesis using assms by (simp add: step_def)
next
  case (Network b)
  then show ?thesis using assms by (simp add: step_def)
qed

lemma reachable_linked: "reachable env s \<Longrightarrow> linked s"
  by (induction rule: reachable.induct) (simp_all add: linked_init linked_step reachable_wf)

section \<open>The queue of tickets\<close>



lemma queue_kept_refl [simp]: "queue_kept env s s"
  by (simp add: queue_kept_def)


lemma queue_kept_same: "dispatch_queue s' = dispatch_queue s \<Longrightarrow> queue_kept env s s'"
  by (simp add: queue_kept_def)




















lemma chain_forward:
  "forward (promises (chain u f s) q) =
     (if q = next_promise s then None
      else if next_promise s < q \<and> q < next_promise s + 6
      then Some (if q = next_promise s + 5 then next_promise s + 4 else q - 1)
      else forward (promises s q))"
  by (auto simp: chain_def requestDispatch_steps)











section \<open>Nothing is stored twice\<close>

lemma task_targets_iff [simp]:
  "x \<in> set (concat (map task_targets ts)) \<longleftrightarrow> (\<exists>cb. RunCallback cb \<in> set ts \<and> cb_new cb = x)"
  by (induction ts) (auto simp: task_targets_def split: task.splits)

lemma task_runs_iff [simp]:
  "x \<in> set (concat (map task_runs ts)) \<longleftrightarrow> RunDeferred x \<in> set ts"
  by (induction ts) (auto simp: task_runs_def split: task.splits)

lemma task_member [simp]:
  "x \<in> set (task_runs t) \<longleftrightarrow> t = RunDeferred x"
  "y \<in> set (task_targets t) \<longleftrightarrow> (\<exists>cb. t = RunCallback cb \<and> cb_new cb = y)"
  by (auto simp: task_targets_def task_runs_def split: task.splits)

lemma task_lists [simp]:
  "task_targets (RunCallback cb) = [cb_new cb]" "task_targets (RunDeferred p) = []"
  "task_targets (RunNotify p v) = []"
  "task_runs (RunCallback cb) = []" "task_runs (RunDeferred p) = [p]"
  "task_runs (RunNotify p v) = []"
  by (simp_all add: task_targets_def task_runs_def)

lemma unique_init: "unique (init md dk t on)"
  by (simp add: unique_def init_def)

lemma unique_other_fields [simp]:
  "unique (s\<lparr>files := fs\<rparr>) = unique s"
  "unique (s\<lparr>next_file := nf\<rparr>) = unique s"
  "unique (s\<lparr>pending_tasks := pt\<rparr>) = unique s"
  "unique (s\<lparr>now := n\<rparr>) = unique s"
  "unique (s\<lparr>online := b\<rparr>) = unique s"
  "unique (s\<lparr>metadata := m\<rparr>) = unique s"
  "unique (s\<lparr>disk := d\<rparr>) = unique s"
  "unique (s\<lparr>calls := c\<rparr>) = unique s"
  "unique (s\<lparr>sent := se\<rparr>) = unique s"
  "unique (s\<lparr>http := h\<rparr>) = unique s"
  "unique (s\<lparr>dispatch_queue := q\<rparr>) = unique s"
  by (simp_all add: unique_def)

lemma tidy_src: "tidy s \<Longrightarrow> RunCallback cb \<in> set (timers s) \<Longrightarrow> cb_src cb < next_promise s"
  unfolding tidy_def by fastforce

lemma tidy_target: "tidy s \<Longrightarrow> cb \<in> stored s \<Longrightarrow> cb_new cb < next_promise s"
  using tidy_stored [of s cb] by (cases cb) simp

lemma unique_derive:
  assumes "tidy s" and "unique s"
  shows "unique (derive p s)"
  unfolding unique_def using assms tidy_src [OF assms(1)]
  by (auto simp: unique_def less_Suc_eq)

lemma unique_pinkySwear:
  assumes "tidy s" and "unique s"
  shows "unique (snd (pinkySwear s))"
  unfolding unique_def using assms tidy_src [OF assms(1)]
  by (auto simp: unique_def pinkySwear_def less_Suc_eq)

lemma unique_attach:
  assumes "tidy s" and "unique s" and "\<forall>cb'\<in>stored s. cb_new cb' \<noteq> cb_new cb" and "cb_src cb = p"
  shows "unique (attach p cb s)"
proof (cases "pstate (promises s p) = None")
  case True
  have d: "cb_new cb \<notin> cb_new ` set (deferred (promises s q))" if "q < next_promise s" for q
    using assms(3) that by (auto simp: stored_def)
  have t: "cb_new cb' \<noteq> cb_new cb" if "RunCallback cb' \<in> set (timers s)" for cb'
    using assms(3) that by (auto simp: stored_def)
  show ?thesis
    unfolding unique_def using assms(2) True d t tidy_src [OF assms(1)]
    by (auto simp: unique_def)
next
  case False
  then have p: "p < next_promise s" using assms(1) unfolding tidy_def by (meson not_le)
  have d: "cb_new cb \<notin> cb_new ` set (deferred (promises s q))" if "q < next_promise s" for q
    using assms(3) that by (auto simp: stored_def)
  have t: "cb_new cb' \<noteq> cb_new cb" if "RunCallback cb' \<in> set (timers s)" for cb'
    using assms(3) that by (auto simp: stored_def)
  show ?thesis
    unfolding unique_def using assms(2,4) False d p t
    by (auto simp: unique_def)
qed

lemma unique_progress: "unique s \<Longrightarrow> unique (progress p f s)"
  by (simp add: unique_def)

lemma unique_subscribe: "unique s \<Longrightarrow> unique (subscribe p c s)"
  by (cases c) (simp_all add: subscribe_def unique_progress)

lemma unique_notify: "unique s \<Longrightarrow> unique (notify p v s)"
  by (simp add: unique_def)

lemma unique_then_promise:
  assumes "tidy s" and "unique s"
  shows "unique (snd (then_promise p a b c s))"
proof -
  have 1: "unique (derive p s)" and 2: "tidy (derive p s)"
    using assms by (simp_all add: unique_derive tidy_derive)
  have "\<forall>cb'\<in>stored (derive p s). cb_new cb' \<noteq> next_promise s"
    using tidy_target [OF assms(1)] by fastforce
  then have "unique (attach p (CallCallbacks p a b (next_promise s)) (derive p s))"
    by (intro unique_attach 1 2) simp_all
  then show ?thesis unfolding snd_then_promise by (rule unique_subscribe)
qed

lemma unique_set_promise_timers:
  assumes "\<forall>t\<in>set (timers s). task_ok s t" and "unique s"
  shows "unique (set_promise p b vs s)"
proof -
  have "RunDeferred p \<notin> set (timers s)" if "pstate (promises s p) = None"
    using assms(1) that by fastforce
  then show ?thesis unfolding unique_def using assms(2) by (auto simp: unique_def)
qed

lemma unique_set_promise: "tidy s \<Longrightarrow> unique s \<Longrightarrow> unique (set_promise p b vs s)"
  by (rule unique_set_promise_timers) (simp_all add: tidy_def)

lemma unique_pop: "unique s \<Longrightarrow> timers s = t # ts \<Longrightarrow> unique (s\<lparr>timers := ts\<rparr>)"
  by (auto simp: unique_def)

lemma unique_dispatchNextTask: "tidy s \<Longrightarrow> unique s \<Longrightarrow> unique (dispatchNextTask env s)"
  by (cases "dispatch_queue s")
     (auto simp: dispatchNextTask_def resolve_def intro!: unique_set_promise simp: tidy_def)


lemma unique_apply_fn:
  assumes "tidy s" and "unique s"
  shows "unique (snd (apply_fn env f vs s))"
proof (cases f)
  case (SpawnFn u)
  then show ?thesis
    using unique_pinkySwear [OF assms] by (simp add: case_prod_unfold spawnHTTPClient_def Let_def)
next
  case (WriteFn u x)
  then show ?thesis
    using assms(2)
    by (simp add: case_prod_unfold Let_def write_file_def save_def updateLastUsedAt_def)
next
  case (FinFn x)
  then show ?thesis using assms by (simp add: unique_dispatchNextTask)
qed (use assms in \<open>simp_all add: unique_set_promise unique_notify\<close>)

lemma unique_callCallbacks:
  assumes "tidy s" and "unique s" and "cb_ok (next_promise s) cb"
  shows "unique (callCallbacks env cb s)"
proof (cases cb)
  case (CallCallbacks p onF onR np)
  with assms have ok: "fn_ok (next_promise s) onF" "fn_ok (next_promise s) onR" by simp_all
  show ?thesis
  proof (cases "if pstate (promises s p) = Some True then onF else onR")
    case None
    then show ?thesis
      using CallCallbacks assms by (simp add: callCallbacks_def unique_set_promise)
  next
    case (Some f)
    then have fok: "fn_ok (next_promise s) (Some f)" using ok by (auto split: if_splits)
    obtain r s1 where a: "apply_fn env f (pvalues (promises s p)) s = (r, s1)"
      by (cases "apply_fn env f (pvalues (promises s p)) s")
    then have w1: "tidy s1" and u1: "unique s1"
      using tidy_apply_fn [OF assms(1) fok, of env "pvalues (promises s p)"]
        unique_apply_fn [OF assms(1,2), of env f "pvalues (promises s p)"] by simp_all
    show ?thesis
      using CallCallbacks Some a w1 u1
      by (auto simp: callCallbacks_def unique_set_promise unique_then_promise
          split: outcome.splits val.splits)
  qed
qed

lemma unique_run_deferred:
  assumes "tidy s" and "unique s"
    and "\<forall>cb\<in>set cbs. cb_ok (next_promise s) cb \<and> cb_src cb < next_promise s \<and>
           pstate (promises s (cb_src cb)) \<noteq> None"
  shows "unique (run_deferred env cbs s)"
  using assms
proof (induction cbs arbitrary: s)
  case Nil
  then show ?case by simp
next
  case (Cons cb cbs)
  let ?s1 = "callCallbacks env cb s"
  have w: "tidy ?s1" using Cons.prems by (intro tidy_callCallbacks) simp_all
  have u: "unique ?s1" using Cons.prems by (intro unique_callCallbacks) simp_all
  have g: "grows s ?s1" by (rule grows_callCallbacks)
  have "\<forall>cb\<in>set cbs. cb_ok (next_promise ?s1) cb \<and> cb_src cb < next_promise ?s1 \<and>
           pstate (promises ?s1 (cb_src cb)) \<noteq> None"
    using Cons.prems(3) g by (auto simp: grows_def intro: cb_ok_mono)
  from Cons.IH [OF w u this] show ?case by simp
qed

lemma unique_run_progress:
  assumes "tidy s" and "unique s" and "\<forall>f\<in>set fs. progress_ok f"
  shows "unique (run_progress env fs v s)"
  using assms
proof (induction fs arbitrary: s)
  case Nil
  then show ?case by simp
next
  case (Cons f fs)
  have ok: "fn_ok (next_promise s) (Some f)"
    using Cons.prems(3) by (cases f; simp)
  from tidy_apply_fn [OF Cons.prems(1) ok, of env "[v]"]
    unique_apply_fn [OF Cons.prems(1,2), of env f "[v]"]
  show ?case using Cons by (auto split: prod.splits outcome.splits)
qed

lemma unique_timeout:
  assumes "tidy s" and "unique s"
  shows "unique (step env Timeout s)"
proof (cases "timers s")
  case Nil
  then show ?thesis using assms by (simp add: step_def)
next
  case (Cons t ts)
  let ?s0 = "s\<lparr>timers := ts\<rparr>"
  have w0: "tidy ?s0" using assms(1) Cons by (rule tidy_pop)
  have u0: "unique ?s0" using assms(2) Cons by (rule unique_pop)
  have t: "task_ok s t" using assms Cons by (simp add: tidy_def)
  have "unique (run_task env t ?s0)"
  proof (cases t)
    case (RunDeferred p)
    with t have p: "p < next_promise s" "pstate (promises s p) \<noteq> None" by simp_all
    then have "\<forall>cb\<in>set (deferred (promises s p)). cb_ok (next_promise ?s0) cb \<and>
        cb_src cb < next_promise ?s0 \<and> pstate (promises ?s0 (cb_src cb)) \<noteq> None"
      using assms p by (auto simp: tidy_def)
    from unique_run_deferred [OF w0 u0 this] show ?thesis
      using RunDeferred by (simp add: run_task_def)
  next
    case (RunCallback cb)
    with t w0 u0 show ?thesis by (simp add: run_task_def unique_callCallbacks)
  next
    case (RunNotify p v)
    show ?thesis
    proof (cases "progress_fns (promises s p)")
      case None
      then show ?thesis using RunNotify u0 by (simp add: run_task_def)
    next
      case (Some fns)
      then have "\<forall>f\<in>set fns. progress_ok f" using assms by (auto simp: tidy_def)
      from unique_run_progress [OF w0 u0 this] show ?thesis
        using RunNotify Some by (simp add: run_task_def)
    qed
  qed
  then show ?thesis using Cons by (simp add: step_def)
qed

lemma unique_attachCallbacks: "tidy s \<Longrightarrow> unique s \<Longrightarrow> unique (snd (attachCallbacks a p s))"
  unfolding attachCallbacks_def
  by (auto intro!: unique_then_promise)

lemma unique_requestDispatch:
  assumes "tidy s" and "unique s"
  shows "unique (snd (requestDispatch s))"
  using unique_pinkySwear [OF assms] by (simp add: requestDispatch_def case_prod_unfold Let_def)

lemma unique_chain: "tidy s \<Longrightarrow> unique s \<Longrightarrow> unique (chain u f s)"
  unfolding chain_def
  by (intro unique_then_promise tidy_then_promise unique_requestDispatch tidy_requestDispatch)
    simp_all

lemma unique_start_download:
  "tidy s \<Longrightarrow> unique s \<Longrightarrow> unique (snd (start_download env a f s))"
  unfolding start_download_steps
  by (intro unique_attachCallbacks tidy_dispatchNextTask unique_dispatchNextTask)
    (simp_all add: mark_pending_def tidy_chain unique_chain)

lemma unique_download:
  assumes "tidy s" and "unique s"
  shows "unique (snd (download env a s))"
proof (cases "pending_tasks s (idFromUrl env (url a))")
  case (Some p)
  have "unique (snd (fromURL env (url a) s))" using assms(2) by (simp add: fromURL_def File_def Let_def)
  then show ?thesis
    unfolding download_in_flight [OF Some]
    by (intro unique_attachCallbacks tidy_fromURL assms)
next
  case None
  let ?s1 = "snd (fromURL env (url a) s)"
  have w1: "tidy ?s1" using assms(1) by (rule tidy_fromURL)
  have u1: "unique ?s1" using assms(2) by (simp add: fromURL_def File_def Let_def)
  have a: "unique (snd (attachCallbacks a (next_promise s)
       (set_promise (next_promise s) (Some b) vs (snd (pinkySwear x)))))"
    if "tidy x" "unique x" "next_promise x = next_promise s" for x b vs
    using that
    by (intro unique_attachCallbacks unique_set_promise tidy_set_promise tidy_pinkySwear
        unique_pinkySwear) (simp_all add: pinkySwear_def)
  have s: "tidy (save f (updateLastUsedAt f ?s1))" "unique (save f (updateLastUsedAt f ?s1))" for f
    using w1 u1 by (simp_all add: save_def updateLastUsedAt_def)
  have n: "next_promise (save f (updateLastUsedAt f ?s1)) = next_promise s" for f
    by (simp add: save_def updateLastUsedAt_def)
  show ?thesis
    unfolding download_not_in_flight [OF None]
    using a [OF s n] a [OF w1 u1] unique_start_download [OF w1 u1] by simp
qed

lemma unique_step:
  assumes "tidy s" and "unique s"
  shows "unique (step env a s)"
proof (cases a)
  case (Download ar)
  then show ?thesis using assms by (simp add: step_def unique_download)
next
  case Timeout
  then show ?thesis using assms by (simp add: unique_timeout)
next
  case (HttpLoad i d)
  have "unique (set_promise p b vs (s\<lparr>http := x\<rparr>))" for p b vs x
    using assms by (intro unique_set_promise_timers) (simp_all add: tidy_def)
  then show ?thesis using HttpLoad assms by (simp add: step_def resolve_def)
next
  case (HttpError i e)
  have "unique (set_promise p b vs (s\<lparr>http := x\<rparr>))" for p b vs x
    using assms by (intro unique_set_promise_timers) (simp_all add: tidy_def)
  then show ?thesis using HttpError assms by (simp add: step_def reject_def)
next
  case (HttpDataStream i v)
  then show ?thesis using assms by (simp add: step_def unique_notify)
next
  case (Clock d)
  then show ?thesis using assms by (simp add: step_def)
next
  case (Network b)
  then show ?thesis using assms by (simp add: step_def)
qed

lemma reachable_unique: "reachable env s \<Longrightarrow> unique s"
  by (induction rule: reachable.induct) (simp_all add: unique_init unique_step reachable_wf)

section \<open>One download for each file id\<close>

lemma live_stored: "live s \<subseteq> stored s"
  by (auto simp: live_def stored_def)

lemma live_other_fields [simp]:
  "live (s\<lparr>files := fs\<rparr>) = live s"
  "live (s\<lparr>next_file := nf\<rparr>) = live s"
  "live (s\<lparr>pending_tasks := pt\<rparr>) = live s"
  "live (s\<lparr>now := n\<rparr>) = live s"
  "live (s\<lparr>online := b\<rparr>) = live s"
  "live (s\<lparr>metadata := m\<rparr>) = live s"
  "live (s\<lparr>disk := d\<rparr>) = live s"
  "live (s\<lparr>calls := c\<rparr>) = live s"
  "live (s\<lparr>sent := se\<rparr>) = live s"
  "live (s\<lparr>http := h\<rparr>) = live s"
  "live (s\<lparr>dispatch_queue := q\<rparr>) = live s"
  by (simp_all add: live_def)

lemma live_alloc:
  assumes "next_promise s' = Suc (next_promise s)" and "timers s' = timers s"
    and "deferred (promises s' (next_promise s)) = []"
    and "\<forall>p<next_promise s. promises s' p = promises s p"
  shows "live s' = live s"
proof -
  have "(\<exists>p<next_promise s'. cb \<in> set (deferred (promises s' p)) \<and>
            (pstate (promises s' p) = None \<or> RunDeferred p \<in> set (timers s'))) \<longleftrightarrow>
        (\<exists>p<next_promise s. cb \<in> set (deferred (promises s p)) \<and>
            (pstate (promises s p) = None \<or> RunDeferred p \<in> set (timers s)))" for cb
    using assms by (auto simp: less_Suc_eq)
  then show ?thesis unfolding live_def using assms(2) by simp
qed

lemma live_derive [simp]: "live (derive p s) = live s"
  by (rule live_alloc) simp_all

lemma live_pinkySwear [simp]: "live (snd (pinkySwear s)) = live s"
  by (rule live_alloc) (simp_all add: pinkySwear_def)

lemma live_attach: "live (attach p cb s) \<subseteq> insert cb (live s)"
  by (auto simp: live_def split: if_splits)

lemma live_set_promise [simp]: "live (set_promise p b vs s) = live s"
  by (auto simp: live_def)

lemma live_progress [simp]: "live (progress p f s) = live s"
  by (auto simp: live_def)

lemma live_subscribe [simp]: "live (subscribe p c s) = live s"
  by (cases c) (simp_all add: subscribe_def)

lemma live_notify [simp]: "live (notify p v s) = live s"
  by (auto simp: live_def)

lemma live_then_promise:
  "live (snd (then_promise p a b c s)) \<subseteq> insert (CallCallbacks p a b (next_promise s)) (live s)"
  unfolding snd_then_promise using live_attach [of p _ "derive p s"] by simp

lemma stored_then_promise:
  "stored (snd (then_promise p a b c s)) \<subseteq> insert (CallCallbacks p a b (next_promise s)) (stored s)"
  unfolding snd_then_promise using stored_attach [of p _ "derive p s"] by simp

lemma moves_refl [simp]: "moves s s {} {}"
  by (simp add: moves_def)

lemma moves_trans:
  assumes "moves s s1 N1 X1" and "moves s1 s2 N2 X2" and "\<forall>cb\<in>N1. cb_new cb \<notin> X2"
  shows "moves s s2 (N1 \<union> N2) (X1 \<union> X2)"
proof -
  have g: "grows s s2" using assms(1,2) by (auto simp: moves_def intro: grows_trans)
  have n: "next_promise s \<le> next_promise s1" "next_promise s1 \<le> next_promise s2"
    using assms(1,2) by (simp_all add: moves_def grows_def)
  have l: "live s2 \<subseteq> live s \<union> (N1 \<union> N2)" "stored s2 \<subseteq> stored s \<union> (N1 \<union> N2)"
    using assms(1,2) unfolding moves_def by blast+
  have x: "\<forall>p. pstate (promises s2 p) \<noteq> None \<longrightarrow> pstate (promises s p) \<noteq> None \<or> p \<in> X1 \<union> X2"
    using assms(1,2) unfolding moves_def by blast
  have n1: "\<forall>cb\<in>N1. next_promise s \<le> cb_new cb \<and> cb_new cb < next_promise s2 \<and>
        pstate (promises s2 (cb_new cb)) = None"
    using assms n unfolding moves_def by (metis less_le_trans)
  have n2: "\<forall>cb\<in>N2. next_promise s \<le> cb_new cb \<and> cb_new cb < next_promise s2 \<and>
        pstate (promises s2 (cb_new cb)) = None"
    using assms(2) n unfolding moves_def by (metis le_trans)
  show ?thesis unfolding moves_def using g l x n1 n2 by blast
qed

lemma moves_more: "moves s s' N X \<Longrightarrow> X \<subseteq> X' \<Longrightarrow> moves s s' N X'"
  unfolding moves_def by blast

lemma moves_then_promise:
  "moves s (snd (then_promise p a b c s)) {CallCallbacks p a b (next_promise s)} {}"
  unfolding moves_def
  using live_then_promise [of p a b c s] stored_then_promise [of p a b c s]
  by (auto simp: grows_then_promise)

lemma moves_set_promise: "moves s (set_promise p b vs s) {} {p}"
  unfolding moves_def by (auto simp: grows_set_promise)

lemma moves_pinkySwear: "moves s (snd (pinkySwear s)) {} {}"
  unfolding moves_def by (auto simp: grows_pinkySwear) (auto simp: pinkySwear_def split: if_splits)

lemma moves_notify: "moves s (notify p v s) {} {}"
  unfolding moves_def by (auto simp: grows_notify)

lemma moves_same:
  "grows s s' \<Longrightarrow> promises s' = promises s \<Longrightarrow> timers s' = timers s \<Longrightarrow>
   next_promise s' = next_promise s \<Longrightarrow> moves s s' {} {}"
  by (auto simp: moves_def live_def stored_def)


lemma adopts_ok: "cb_ok n cb \<Longrightarrow> adopts cb x \<Longrightarrow> x < n"
proof (cases cb)
  case (CallCallbacks p a b m)
  assume "cb_ok n cb" and "adopts cb x"
  then have "fn_ok n a" "fn_ok n b"
    and "a = Some (AdoptFulfil x) \<or> a = Some (AdoptReject x) \<or>
         b = Some (AdoptFulfil x) \<or> b = Some (AdoptReject x)"
    using CallCallbacks by (auto simp: adopts_def elim!: option.set_cases)
  then show ?thesis by auto
qed

lemma chain_to_kept:
  assumes "chain_to s k p1" and "grows s s'" and "pending_tasks s' k = pending_tasks s k"
  shows "chain_to s' k p1"
proof -
  from assms(1) obtain p4 p3 p2 where c:
    "p4 < next_promise s" "p3 < next_promise s" "p2 < next_promise s" "p1 < next_promise s"
    "pending_tasks s k = Some p4" "forward (promises s p4) = Some p3"
    "forward (promises s p3) = Some p2" "forward (promises s p2) = Some p1"
    "forward (promises s p1) \<noteq> None"
    unfolding chain_to_def by blast
  have f: "forward (promises s' p) = forward (promises s p)" if "p < next_promise s" for p
    using assms(2) that by (simp add: grows_def)
  have n: "next_promise s \<le> next_promise s'" using assms(2) by (simp add: grows_def)
  have "p4 < next_promise s'" "p3 < next_promise s'" "p2 < next_promise s'" "p1 < next_promise s'"
    using c(1-4) n by simp_all
  moreover have "pending_tasks s' k = Some p4" "forward (promises s' p4) = Some p3"
    "forward (promises s' p3) = Some p2" "forward (promises s' p2) = Some p1"
    "forward (promises s' p1) \<noteq> None"
    using c f assms(3) by simp_all
  ultimately show ?thesis unfolding chain_to_def by blast
qed

text \<open>The general step.\<close>

lemma dedup_frame:
  assumes d: "dedup env s cbs0" and t: "tidy s" and m: "moves s s' N X"
    and b: "\<forall>cb\<in>set cbs0. cb_ok (next_promise s) cb"
    and sub: "set cbs \<subseteq> set cbs0"
    and x1: "\<forall>cb\<in>set cbs \<union> live s \<union> N. cb_new cb \<notin> X"
    and x2: "\<forall>c\<in>set (http s). \<forall>p1. chain_to s (idFromUrl env (fst c)) p1 \<longrightarrow> p1 \<notin> X"
    and nh: "\<forall>cb\<in>N. (\<forall>x. adopts cb x \<longrightarrow> x \<in> X) \<and>
        (\<forall>u. SpawnFn u \<in> handlers cb \<longrightarrow> chain_to s' (idFromUrl env u) (cb_new cb)) \<and>
        (\<forall>f. FinFn f \<in> handlers cb \<longrightarrow>
           f < next_file s' \<and> cb_src cb < next_promise s' \<and>
           pending_tasks s' (file_id (files s' f)) = Some (cb_src cb) \<and>
           (\<exists>rest. deferred (promises s' (cb_src cb)) = cb # rest))"
    and pt: "\<forall>k. k \<notin> K \<longrightarrow> pending_tasks s' k = pending_tasks s k"
    and k1: "\<forall>cb\<in>set cbs \<union> live s.
        (\<forall>u. SpawnFn u \<in> handlers cb \<longrightarrow> idFromUrl env u \<notin> K) \<and>
        (\<forall>f. FinFn f \<in> handlers cb \<longrightarrow> file_id (files s f) \<notin> K)"
    and ht: "\<forall>c\<in>set (http s'). (c \<in> set (http s) \<and> idFromUrl env (fst c) \<notin> K) \<or>
        client_ok env s' (set cbs \<union> live s') (set cbs \<union> stored s') c"
  shows "dedup env s' cbs"
proof -
  let ?A = "set cbs0 \<union> stored s" and ?A' = "set cbs \<union> stored s'"
  let ?L = "set cbs0 \<union> live s" and ?L' = "set cbs \<union> live s'"
  have g: "grows s s'" and lv: "live s' \<subseteq> live s \<union> N" and st: "stored s' \<subseteq> stored s \<union> N"
    and nn: "\<forall>cb\<in>N. next_promise s \<le> cb_new cb \<and> cb_new cb < next_promise s' \<and>
        pstate (promises s' (cb_new cb)) = None"
    and xs: "\<forall>p. pstate (promises s' p) \<noteq> None \<longrightarrow> pstate (promises s p) \<noteq> None \<or> p \<in> X"
    using m by (simp_all add: moves_def)
  have A': "?A' \<subseteq> ?A \<union> N" using st sub by blast
  have L': "?L' \<subseteq> set cbs \<union> live s \<union> N" using lv by blast
  have oa: "x < next_promise s" if "cb' \<in> ?A" "adopts cb' x" for cb' x
    using that b tidy_stored [OF t] adopts_ok by blast
  have fid: "file_id (files s' f) = file_id (files s f)" if "f < next_file s" for f
    using g that by (simp add: grows_def)
  have 1: "live_ok env s' ?A' cb" if "cb \<in> ?L'" for cb
  proof (cases "cb \<in> set cbs \<union> live s")
    case True
    then have lo: "live_ok env s ?A cb" using d sub by (auto simp: dedup_def)
    have nx: "cb_new cb \<notin> X" using True x1 by blast
    have a: "pstate (promises s' (cb_new cb)) = None"
      using lo xs nx unfolding live_ok_def by blast
    have b: "\<forall>cb'\<in>?A'. \<not> adopts cb' (cb_new cb)"
    proof
      fix cb' assume "cb' \<in> ?A'"
      then consider "cb' \<in> ?A" | "cb' \<in> N" using A' by blast
      then show "\<not> adopts cb' (cb_new cb)"
      proof cases
        case 1 then show ?thesis using lo by (simp add: live_ok_def)
      next
        case 2 then show ?thesis using nh nx by blast
      qed
    qed
    have c: "chain_to s' (idFromUrl env u) (cb_new cb)" if "SpawnFn u \<in> handlers cb" for u
    proof -
      have "chain_to s (idFromUrl env u) (cb_new cb)" using lo that by (simp add: live_ok_def)
      moreover have "idFromUrl env u \<notin> K" using k1 True that by blast
      ultimately show ?thesis using chain_to_kept [OF _ g] pt by blast
    qed
    have e: "f < next_file s' \<and> cb_src cb < next_promise s' \<and>
        pending_tasks s' (file_id (files s' f)) = Some (cb_src cb) \<and>
        (\<exists>rest. deferred (promises s' (cb_src cb)) = cb # rest)" if "FinFn f \<in> handlers cb" for f
    proof -
      from lo that obtain rest where h: "f < next_file s" "cb_src cb < next_promise s"
        "pending_tasks s (file_id (files s f)) = Some (cb_src cb)"
        "deferred (promises s (cb_src cb)) = cb # rest"
        unfolding live_ok_def by blast
      have "file_id (files s f) \<notin> K" using k1 True that by blast
      then have "pending_tasks s' (file_id (files s' f)) = Some (cb_src cb)"
        using h(1,3) fid pt by simp
      moreover have "prefix (deferred (promises s (cb_src cb))) (deferred (promises s' (cb_src cb)))"
        using g h(2) by (simp add: grows_def)
      then have "\<exists>rest. deferred (promises s' (cb_src cb)) = cb # rest"
        using h(4) by (auto simp: prefix_def)
      moreover have "f < next_file s'" "cb_src cb < next_promise s'"
        using g h(1,2) by (auto simp: grows_def)
      ultimately show ?thesis by blast
    qed
    show ?thesis unfolding live_ok_def using a b c e by blast
  next
    case False
    then have n: "cb \<in> N" using that L' by blast
    have nx: "cb_new cb \<notin> X" using n x1 by blast
    have b: "\<forall>cb'\<in>?A'. \<not> adopts cb' (cb_new cb)"
    proof
      fix cb' assume "cb' \<in> ?A'"
      then consider "cb' \<in> ?A" | "cb' \<in> N" using A' by blast
      then show "\<not> adopts cb' (cb_new cb)"
      proof cases
        case 1 then show ?thesis using oa [OF 1] nn n by fastforce
      next
        case 2 then show ?thesis using nh nx by blast
      qed
    qed
    show ?thesis unfolding live_ok_def using n nn nh b by blast
  qed
  have 2: "client_ok env s' ?L' ?A' c" if "c \<in> set (http s')" for c
  proof (cases "client_ok env s' ?L' ?A' c")
    case False
    then have c: "c \<in> set (http s)" and k: "idFromUrl env (fst c) \<notin> K" using ht that by blast+
    from d c obtain p1 cb0 where p:
      "chain_to s (idFromUrl env (fst c)) p1" "pstate (promises s p1) = None"
      "\<forall>cb\<in>?L. cb_new cb \<noteq> p1" "\<forall>cb\<in>?A. adopts cb p1 \<longrightarrow> cb_src cb = snd c"
      "cb0 \<in> set (deferred (promises s (snd c)))" "adopts cb0 p1"
      unfolding dedup_def client_ok_def by blast
    have nx: "p1 \<notin> X" using x2 c p(1) by blast
    have p1: "p1 < next_promise s" using p(1) by (simp add: chain_to_def)
    have a: "chain_to s' (idFromUrl env (fst c)) p1" using chain_to_kept [OF p(1) g] pt k by blast
    have b: "pstate (promises s' p1) = None" using p(2) xs nx by blast
    have e: "\<forall>cb\<in>?L'. cb_new cb \<noteq> p1"
    proof
      fix cb assume "cb \<in> ?L'"
      then consider "cb \<in> ?L" | "cb \<in> N" using L' sub by blast
      then show "cb_new cb \<noteq> p1"
      proof cases
        case 1 then show ?thesis using p(3) by blast
      next
        case 2 then show ?thesis using nn p1 by fastforce
      qed
    qed
    have f: "\<forall>cb\<in>?A'. adopts cb p1 \<longrightarrow> cb_src cb = snd c"
    proof
      fix cb assume "cb \<in> ?A'"
      then consider "cb \<in> ?A" | "cb \<in> N" using A' by blast
      then show "adopts cb p1 \<longrightarrow> cb_src cb = snd c"
      proof cases
        case 1 then show ?thesis using p(4) by blast
      next
        case 2 then show ?thesis using nh nx by blast
      qed
    qed
    have "snd c < next_promise s" using t c by (simp add: tidy_def)
    then have "prefix (deferred (promises s (snd c))) (deferred (promises s' (snd c)))"
      using g by (simp add: grows_def)
    then have "cb0 \<in> set (deferred (promises s' (snd c)))"
      using p(5) by (auto simp: prefix_def)
    then show ?thesis unfolding client_ok_def using a b e f p(6) by blast
  qed simp
  show ?thesis unfolding dedup_def using 1 2 by blast
qed


lemma moves_dispatchNextTask: "moves s (dispatchNextTask env s) {} (set (dispatch_queue s))"
proof (cases "dispatch_queue s")
  case Nil
  then show ?thesis by (simp add: dispatchNextTask_def)
next
  case (Cons t rest)
  have "moves s (s\<lparr>dispatch_queue := rest\<rparr>) {} {}" by (rule moves_same) simp_all
  from moves_trans [OF this moves_set_promise]
  have "moves s (set_promise t (Some True) [Undefined] (s\<lparr>dispatch_queue := rest\<rparr>)) {} {t}"
    by simp
  then have "moves s (set_promise t (Some True) [Undefined] (s\<lparr>dispatch_queue := rest\<rparr>)) {}
      (set (dispatch_queue s))"
    by (rule moves_more) (simp add: Cons)
  moreover have "moves s s {} (set (dispatch_queue s))"
    by (rule moves_more [OF moves_refl]) simp
  ultimately show ?thesis using Cons by (simp add: dispatchNextTask_def resolve_def)
qed

lemma moves_apply_fn:
  "moves s (snd (apply_fn env f vs s)) {}
     ({x. f = AdoptFulfil x \<or> f = AdoptReject x} \<union> set (dispatch_queue s))"
proof (cases f)
  case (User n)
  have "moves s (snd (apply_fn env f vs s)) {} {}"
    using User by (intro moves_same) (simp_all add: grows_calls)
  then show ?thesis by (rule moves_more) simp
next
  case (SpawnFn u)
  have "moves (snd (pinkySwear s)) (spawnHTTPClient u (next_promise s) (snd (pinkySwear s))) {} {}"
    by (intro moves_same grows_spawnHTTPClient) (simp_all add: spawnHTTPClient_def)
  from moves_trans [OF moves_pinkySwear this]
  have "moves s (snd (apply_fn env f vs s)) {} {}"
    using SpawnFn by (simp add: case_prod_unfold Let_def)
  then show ?thesis by (rule moves_more) simp
next
  case (GetFn x)
  then show ?thesis by (simp add: moves_more [OF moves_refl])
next
  case (WriteFn u x)
  have "moves s (snd (apply_fn env f vs s)) {} {}"
    using WriteFn grows_apply_fn [of s env f vs]
    by (intro moves_same)
       (simp_all add: case_prod_unfold Let_def write_file_def save_def updateLastUsedAt_def)
  then show ?thesis by (rule moves_more) simp
next
  case (FinFn x)
  let ?s1 = "s\<lparr>pending_tasks := (pending_tasks s)(file_id (files s x) := None),
           files := (files s)(x := (files s x)\<lparr>pending := False\<rparr>)\<rparr>"
  have "moves s ?s1 {} {}" by (rule moves_same) (simp_all add: grows_def)
  from moves_trans [OF this moves_dispatchNextTask, of env]
  have "moves s (dispatchNextTask env ?s1) {} (set (dispatch_queue s))" by simp
  then show ?thesis using FinFn by (simp add: moves_more)
next
  case (AdoptFulfil x)
  then show ?thesis by (simp add: moves_more [OF moves_set_promise])
next
  case (AdoptReject x)
  then show ?thesis by (simp add: moves_more [OF moves_set_promise])
next
  case (AdoptNotify x)
  then show ?thesis by (simp add: moves_more [OF moves_notify])
qed

lemma picked_handlers: "picked s cb = Some f \<Longrightarrow> f \<in> handlers cb"
  by (cases cb) (auto simp: picked_def split: if_splits)

lemma moves_callCallbacks:
  "\<exists>N. moves s (callCallbacks env cb s) N
          ({cb_new cb} \<union> {x. adopts cb x} \<union> set (dispatch_queue s)) \<and>
        (\<forall>cb'\<in>N. handlers cb' = {AdoptFulfil (cb_new cb), AdoptReject (cb_new cb)})"
proof (cases cb)
  case (CallCallbacks p onF onR np)
  let ?X = "{cb_new cb} \<union> {x. adopts cb x} \<union> set (dispatch_queue s)"
  show ?thesis
  proof (cases "picked s cb")
    case None
    then have "callCallbacks env cb s =
        set_promise np (pstate (promises s p)) (pvalues (promises s p)) s"
      using CallCallbacks by (simp add: callCallbacks_def picked_def)
    then have "moves s (callCallbacks env cb s) {} ?X"
      using CallCallbacks by (simp add: moves_more [OF moves_set_promise])
    then show ?thesis by blast
  next
    case (Some f)
    obtain r s1 where a: "apply_fn env f (pvalues (promises s p)) s = (r, s1)"
      by (cases "apply_fn env f (pvalues (promises s p)) s")
    have "f \<in> handlers cb" using Some by (rule picked_handlers)
    then have "{x. f = AdoptFulfil x \<or> f = AdoptReject x} \<subseteq> {x. adopts cb x}"
      by (auto simp: adopts_def)
    then have m1: "moves s s1 {} ?X"
      using moves_apply_fn [of s env f "pvalues (promises s p)"] a
      by (auto intro: moves_more)
    have s: "moves s (set_promise np b vs s1) {} ?X" for b vs
      using moves_trans [OF m1 moves_set_promise, of np b vs] CallCallbacks
      by (auto intro: moves_more)
    have t: "moves s (snd (then_promise q (Some (AdoptFulfil np)) (Some (AdoptReject np))
        (Some (AdoptNotify np)) s1))
        {CallCallbacks q (Some (AdoptFulfil np)) (Some (AdoptReject np)) (next_promise s1)} ?X" for q
      using moves_trans [OF m1 moves_then_promise] by simp
    have c: "callCallbacks env cb s =
        (case r of Throws e \<Rightarrow> set_promise np (Some False) [e] s1
         | Returns (PromiseV q) \<Rightarrow>
             snd (then_promise q (Some (AdoptFulfil np)) (Some (AdoptReject np))
                    (Some (AdoptNotify np)) s1)
         | Returns v \<Rightarrow> set_promise np (Some True) [v] s1)"
      using CallCallbacks Some a
      by (auto simp: callCallbacks_def picked_def split: outcome.splits val.splits)
    show ?thesis
    proof (cases "\<exists>q. r = Returns (PromiseV q)")
      case True
      then obtain q where "r = Returns (PromiseV q)" by blast
      with c t [of q] CallCallbacks show ?thesis by (intro exI conjI) auto
    next
      case False
      then have "\<exists>b vs. callCallbacks env cb s = set_promise np b vs s1"
        using c by (auto split: outcome.splits val.splits)
      with s show ?thesis by (metis empty_iff)
    qed
  qed
qed

lemma callCallbacks_pending_tasks:
  "pending_tasks (callCallbacks env cb s) k = pending_tasks s k \<or>
   (\<exists>f. picked s cb = Some (FinFn f) \<and> k = file_id (files s f))"
proof (cases cb)
  case (CallCallbacks p onF onR np)
  show ?thesis
  proof (cases "picked s cb")
    case None
    then show ?thesis using CallCallbacks by (simp add: callCallbacks_def picked_def)
  next
    case (Some f)
    obtain r s1 where a: "apply_fn env f (pvalues (promises s p)) s = (r, s1)"
      by (cases "apply_fn env f (pvalues (promises s p)) s")
    have "pending_tasks (callCallbacks env cb s) = pending_tasks s1"
      using CallCallbacks Some a
      by (auto simp: callCallbacks_def picked_def split: outcome.splits val.splits)
    moreover have "pending_tasks s1 k = pending_tasks s k \<or> (\<exists>x. f = FinFn x \<and> k = file_id (files s x))"
      using a
      by (cases f) (auto simp: case_prod_unfold Let_def write_file_def save_def
          updateLastUsedAt_def spawnHTTPClient_def pinkySwear_def dispatchNextTask_def resolve_def
          split: if_splits list.splits)
    ultimately show ?thesis using Some by auto
  qed
qed

lemma callCallbacks_http:
  "(\<forall>u. picked s cb \<noteq> Some (SpawnFn u)) \<Longrightarrow> http (callCallbacks env cb s) = http s"
proof (cases cb)
  case (CallCallbacks p onF onR np)
  assume n: "\<forall>u. picked s cb \<noteq> Some (SpawnFn u)"
  show ?thesis
  proof (cases "picked s cb")
    case None
    then show ?thesis using CallCallbacks by (simp add: callCallbacks_def picked_def)
  next
    case (Some f)
    obtain r s1 where a: "apply_fn env f (pvalues (promises s p)) s = (r, s1)"
      by (cases "apply_fn env f (pvalues (promises s p)) s")
    have "http (callCallbacks env cb s) = http s1"
      using CallCallbacks Some a
      by (auto simp: callCallbacks_def picked_def split: outcome.splits val.splits)
    moreover have "http s1 = http s"
      using a n Some
      by (cases f) (auto simp: case_prod_unfold Let_def write_file_def save_def
          updateLastUsedAt_def dispatchNextTask_def resolve_def
          split: if_splits list.splits)
    ultimately show ?thesis by simp
  qed
qed

lemma callCallbacks_spawn:
  assumes "picked s cb = Some (SpawnFn u)"
  shows "callCallbacks env cb s =
     snd (then_promise (next_promise s) (Some (AdoptFulfil (cb_new cb)))
            (Some (AdoptReject (cb_new cb))) (Some (AdoptNotify (cb_new cb)))
            (spawnHTTPClient u (next_promise s) (snd (pinkySwear s))))"
  using assms
  by (cases cb) (simp add: callCallbacks_def picked_def case_prod_unfold Let_def)


lemma chain_to_fun: "chain_to s k p \<Longrightarrow> chain_to s k q \<Longrightarrow> p = q"
  unfolding chain_to_def by auto

lemma settled_chain:
  assumes "tidy s" and "linked s" and "chain_to s k p1" and "pending_tasks s k = Some p4"
    and "pstate (promises s p4) \<noteq> None"
  shows "pstate (promises s p1) \<noteq> None"
proof -
  from assms(3,4) obtain p3 p2 where c:
    "p4 < next_promise s" "p3 < next_promise s" "p2 < next_promise s"
    "forward (promises s p4) = Some p3" "forward (promises s p3) = Some p2"
    "forward (promises s p2) = Some p1"
    unfolding chain_to_def by auto
  have d: "pstate (promises s r) \<noteq> None"
    if "q < next_promise s" "pstate (promises s q) \<noteq> None" "forward (promises s q) = Some r" for q r
    using assms(2) that unfolding linked_def by blast
  from d [OF c(1) assms(5) c(4)] have "pstate (promises s p3) \<noteq> None" .
  from d [OF c(2) this c(5)] have "pstate (promises s p2) \<noteq> None" .
  from d [OF c(3) this c(6)] show ?thesis .
qed

lemma batch_ok_moves:
  assumes "batch_ok s (cb # cbs)" and "moves s s' N X"
  shows "batch_ok s' cbs"
proof -
  have g: "grows s s'" and lv: "live s' \<subseteq> live s \<union> N"
    and nn: "\<forall>cb\<in>N. next_promise s \<le> cb_new cb"
    using assms(2) by (auto simp: moves_def)
  have n: "next_promise s \<le> next_promise s'" using g by (simp add: grows_def)
  have "distinct (map cb_new cbs)" using assms(1) by (simp add: batch_ok_def)
  moreover have "(\<forall>cb'\<in>live s'. cb_new cb' \<noteq> cb_new c) \<and> cb_ok (next_promise s') c \<and>
        cb_src c < next_promise s' \<and> pstate (promises s' (cb_src c)) \<noteq> None \<and>
        cb_linked s' c" if "c \<in> set cbs" for c
  proof -
    have o: "\<forall>cb'\<in>live s. cb_new cb' \<noteq> cb_new c" "cb_ok (next_promise s) c"
      "cb_src c < next_promise s" "pstate (promises s (cb_src c)) \<noteq> None" "cb_linked s c"
      using assms(1) that by (simp_all add: batch_ok_def)
    have "cb_new c < next_promise s" using o(2) by (cases c) simp
    then have "\<forall>cb'\<in>live s'. cb_new cb' \<noteq> cb_new c" using o(1) lv nn by fastforce
    moreover have "cb_ok (next_promise s') c" using o(2) n by (rule cb_ok_mono)
    moreover have "cb_src c < next_promise s'" using o(3) n by simp
    moreover have "pstate (promises s' (cb_src c)) \<noteq> None" using o(3,4) g by (auto simp: grows_def)
    moreover have "cb_linked s' c" using o(5,2) g by (rule cb_linked_grows)
    ultimately show ?thesis by blast
  qed
  ultimately show ?thesis unfolding batch_ok_def by blast
qed

lemma dedup_callCallbacks:
  assumes t: "tidy s" and l: "linked s" and d: "dedup env s (cb # cbs)"
    and b: "batch_ok s (cb # cbs)"
  shows "dedup env (callCallbacks env cb s) cbs"
proof -
  let ?s' = "callCallbacks env cb s"
  let ?X = "{cb_new cb} \<union> {x. adopts cb x} \<union> set (dispatch_queue s)"
  let ?A = "set (cb # cbs) \<union> stored s"
  let ?K = "{k. \<exists>f. picked s cb = Some (FinFn f) \<and> k = file_id (files s f)}"
  from moves_callCallbacks [of s env cb] obtain N where m: "moves s ?s' N ?X"
    and nh0: "\<forall>cb'\<in>N. handlers cb' = {AdoptFulfil (cb_new cb), AdoptReject (cb_new cb)}" by blast
  have g: "grows s ?s'" and nn: "\<forall>cb\<in>N. next_promise s \<le> cb_new cb"
    and st: "stored ?s' \<subseteq> stored s \<union> N" and lv: "live ?s' \<subseteq> live s \<union> N"
    using m by (auto simp: moves_def)
  have bo: "cb_ok (next_promise s) cb" "cb_src cb < next_promise s"
    "pstate (promises s (cb_src cb)) \<noteq> None" "cb_linked s cb"
    and bos: "\<forall>c\<in>set cbs. cb_ok (next_promise s) c \<and> cb_linked s c"
    using b by (auto simp: batch_ok_def)
  have "cb_new cb \<notin> cb_new ` set cbs" "\<forall>c\<in>live s. cb_new c \<noteq> cb_new cb"
    using b by (simp_all add: batch_ok_def)
  then have dn: "\<forall>c\<in>set cbs \<union> live s. cb_new c \<noteq> cb_new cb"
    by (metis Un_iff image_eqI)
  have np: "cb_new cb < next_promise s" using bo(1) by (cases cb) simp
  have lo: "live_ok env s ?A c" if "c \<in> set (cb # cbs) \<union> live s" for c
    using d that unfolding dedup_def by blast
  have co: "client_ok env s (set (cb # cbs) \<union> live s) ?A c" if "c \<in> set (http s)" for c
    using d that unfolding dedup_def by blast
  have xlt: "x < next_promise s" if "x \<in> ?X" for x
    using that np adopts_ok [OF bo(1)] t by (auto simp: tidy_def)
  have fw: "forward (promises s (cb_new c)) \<noteq> None" if "c \<in> set cbs \<union> live s" for c
  proof -
    have "cb_linked s c" using that bos l live_stored [of s] by (auto simp: linked_def)
    then show ?thesis by (cases c) simp
  qed
  have tk: "forward (promises s x) = None" if "x \<in> set (dispatch_queue s)" for x
    using l that by (simp add: linked_def)
  have x1: "\<forall>c\<in>set cbs \<union> live s \<union> N. cb_new c \<notin> ?X"
  proof
    fix c assume "c \<in> set cbs \<union> live s \<union> N"
    then consider "c \<in> set cbs \<union> live s" | "c \<in> N" by blast
    then show "cb_new c \<notin> ?X"
    proof cases
      case 1
      have "\<not> adopts cb (cb_new c)" using lo [of c] 1 by (auto simp: live_ok_def)
      then show ?thesis using dn 1 fw [OF 1] tk by auto
    next
      case 2
      then show ?thesis using nn xlt by fastforce
    qed
  qed
  have key: "\<not> (chain_to s k p1 \<and> pstate (promises s p1) = None)" if "k \<in> ?K" for k p1
  proof -
    from that obtain f where f: "picked s cb = Some (FinFn f)" "k = file_id (files s f)" by blast
    then have "FinFn f \<in> handlers cb" by (simp add: picked_handlers)
    then have "pending_tasks s k = Some (cb_src cb)"
      using lo [of cb] f(2) by (simp add: live_ok_def)
    from settled_chain [OF t l _ this bo(3)] show ?thesis by blast
  qed
  have x2: "\<forall>c\<in>set (http s). \<forall>p1. chain_to s (idFromUrl env (fst c)) p1 \<longrightarrow> p1 \<notin> ?X"
  proof (intro ballI allI impI)
    fix c p1 assume c: "c \<in> set (http s)" and ch: "chain_to s (idFromUrl env (fst c)) p1"
    from co [OF c] obtain p1' where p: "chain_to s (idFromUrl env (fst c)) p1'"
      "\<forall>cb\<in>set (cb # cbs) \<union> live s. cb_new cb \<noteq> p1'"
      "\<forall>cb\<in>?A. adopts cb p1' \<longrightarrow> cb_src cb = snd c"
      unfolding client_ok_def by blast
    have e: "p1' = p1" using p(1) ch by (rule chain_to_fun)
    have "pstate (promises s (snd c)) = None" using l c by (simp add: linked_def)
    then have "\<not> adopts cb p1" using p(3) bo(3) e by auto
    moreover have "cb_new cb \<noteq> p1" using p(2) e by auto
    moreover have "forward (promises s p1) \<noteq> None" using ch by (simp add: chain_to_def)
    ultimately show "p1 \<notin> ?X" using tk by auto
  qed
  have nh: "\<forall>c\<in>N. (\<forall>x. adopts c x \<longrightarrow> x \<in> ?X) \<and>
        (\<forall>u. SpawnFn u \<in> handlers c \<longrightarrow> chain_to ?s' (idFromUrl env u) (cb_new c)) \<and>
        (\<forall>f. FinFn f \<in> handlers c \<longrightarrow>
           f < next_file ?s' \<and> cb_src c < next_promise ?s' \<and>
           pending_tasks ?s' (file_id (files ?s' f)) = Some (cb_src c) \<and>
           (\<exists>rest. deferred (promises ?s' (cb_src c)) = c # rest))"
    using nh0 by (auto simp: adopts_def)
  have pt: "\<forall>k. k \<notin> ?K \<longrightarrow> pending_tasks ?s' k = pending_tasks s k"
    using callCallbacks_pending_tasks [of env cb s] by blast
  have k1: "\<forall>c\<in>set cbs \<union> live s.
        (\<forall>u. SpawnFn u \<in> handlers c \<longrightarrow> idFromUrl env u \<notin> ?K) \<and>
        (\<forall>f. FinFn f \<in> handlers c \<longrightarrow> file_id (files s f) \<notin> ?K)"
  proof (intro ballI conjI allI impI)
    fix c u assume c: "c \<in> set cbs \<union> live s" and "SpawnFn u \<in> handlers c"
    then have "chain_to s (idFromUrl env u) (cb_new c) \<and> pstate (promises s (cb_new c)) = None"
      using lo [of c] by (auto simp: live_ok_def)
    then show "idFromUrl env u \<notin> ?K" using key by blast
  next
    fix c f assume c: "c \<in> set cbs \<union> live s" and h: "FinFn f \<in> handlers c"
    show "file_id (files s f) \<notin> ?K"
    proof
      assume "file_id (files s f) \<in> ?K"
      then obtain f' where f': "picked s cb = Some (FinFn f')"
        "file_id (files s f) = file_id (files s f')" by blast
      then have "FinFn f' \<in> handlers cb" by (simp add: picked_handlers)
      then obtain rest where 1: "pending_tasks s (file_id (files s f')) = Some (cb_src cb)"
        "deferred (promises s (cb_src cb)) = cb # rest"
        using lo [of cb] unfolding live_ok_def by auto
      from h c obtain rest' where 2: "pending_tasks s (file_id (files s f)) = Some (cb_src c)"
        "deferred (promises s (cb_src c)) = c # rest'"
        using lo [of c] unfolding live_ok_def by auto
      from 1 2 f'(2) have "c = cb" by simp
      then show False using dn c by blast
    qed
  qed
  have ht: "\<forall>c\<in>set (http ?s'). (c \<in> set (http s) \<and> idFromUrl env (fst c) \<notin> ?K) \<or>
        client_ok env ?s' (set cbs \<union> live ?s') (set cbs \<union> stored ?s') c"
  proof
    fix c assume c: "c \<in> set (http ?s')"
    have old: "idFromUrl env (fst c) \<notin> ?K" if "c \<in> set (http s)"
      using co [OF that] key unfolding client_ok_def by blast
    show "(c \<in> set (http s) \<and> idFromUrl env (fst c) \<notin> ?K) \<or>
        client_ok env ?s' (set cbs \<union> live ?s') (set cbs \<union> stored ?s') c"
    proof (cases "\<exists>u. picked s cb = Some (SpawnFn u)")
      case False
      then have "http ?s' = http s" by (intro callCallbacks_http) simp
      then show ?thesis using c old by simp
    next
      case True
      then obtain u where u: "picked s cb = Some (SpawnFn u)" by blast
      let ?n = "next_promise s"
      let ?s1 = "spawnHTTPClient u ?n (snd (pinkySwear s))"
      let ?c = "CallCallbacks ?n (Some (AdoptFulfil (cb_new cb))) (Some (AdoptReject (cb_new cb)))
          (Suc ?n)"
      have s': "?s' = snd (then_promise ?n (Some (AdoptFulfil (cb_new cb)))
            (Some (AdoptReject (cb_new cb))) (Some (AdoptNotify (cb_new cb))) ?s1)"
        using u by (rule callCallbacks_spawn)
      have n1: "next_promise ?s1 = Suc ?n" "pstate (promises ?s1 ?n) = None"
        "deferred (promises ?s1 ?n) = []" "http ?s1 = http s @ [(u, ?n)]"
        "pstate (promises ?s1 (cb_new cb)) = pstate (promises s (cb_new cb))"
        "stored ?s1 = stored s"
        using np by (simp_all add: spawnHTTPClient_def pinkySwear_def)
           (simp add: stored_pinkySwear [unfolded pinkySwear_def, simplified])
      have h': "http ?s' = http s @ [(u, ?n)]" unfolding s' using n1(4) by simp
      show ?thesis
      proof (cases "c \<in> set (http s)")
        case True
        then show ?thesis using old by simp
      next
        case False
        then have ce: "c = (u, ?n)" using c h' by simp
        have "SpawnFn u \<in> handlers cb" using u by (rule picked_handlers)
        then have "chain_to s (idFromUrl env u) (cb_new cb)"
          and pn: "pstate (promises s (cb_new cb)) = None"
          and na: "\<forall>cb'\<in>?A. \<not> adopts cb' (cb_new cb)"
          using lo [of cb] by (auto simp: live_ok_def)
        moreover have "idFromUrl env u \<notin> ?K" using u by simp
        ultimately have 1: "chain_to ?s' (idFromUrl env u) (cb_new cb)"
          using chain_to_kept [OF _ g] pt by blast
        have 2: "pstate (promises ?s' (cb_new cb)) = None"
          unfolding s' using pn n1(1,5) np by simp
        have 3: "\<forall>c\<in>set cbs \<union> live ?s'. cb_new c \<noteq> cb_new cb"
          using x1 lv by fastforce
        have "stored ?s' \<subseteq> insert ?c (stored s)"
          unfolding s' using stored_then_promise [of ?n _ _ _ ?s1] n1(1,6) by simp
        then have 4: "\<forall>c\<in>set cbs \<union> stored ?s'. adopts c (cb_new cb) \<longrightarrow> cb_src c = ?n"
          using na by auto
        have "deferred (promises ?s' ?n) = [?c]"
          unfolding s' using n1(1,2,3) by simp
        then have 5: "\<exists>c\<in>set (deferred (promises ?s' ?n)). adopts c (cb_new cb)"
          by (simp add: adopts_def)
        have "client_ok env ?s' (set cbs \<union> live ?s') (set cbs \<union> stored ?s') (u, ?n)"
          unfolding client_ok_def using 1 2 3 4 5 by (intro exI [of _ "cb_new cb"]) simp
        then show ?thesis using ce by simp
      qed
    qed
  qed
  have cbok: "\<forall>c\<in>set (cb # cbs). cb_ok (next_promise s) c" using bo(1) bos by simp
  show ?thesis
    by (rule dedup_frame [OF d t m cbok _ x1 x2 nh pt k1 ht]) auto
qed


lemma dedup_run_deferred:
  assumes "tidy s" and "linked s" and "dedup env s cbs" and "batch_ok s cbs"
  shows "dedup env (run_deferred env cbs s) []"
  using assms
proof (induction cbs arbitrary: s)
  case Nil
  then show ?case by simp
next
  case (Cons cb cbs)
  let ?s1 = "callCallbacks env cb s"
  have bo: "cb_ok (next_promise s) cb" "cb_src cb < next_promise s"
    "pstate (promises s (cb_src cb)) \<noteq> None" "cb_linked s cb"
    using Cons.prems(4) by (auto simp: batch_ok_def)
  have w: "tidy ?s1" using Cons.prems(1) bo by (intro tidy_callCallbacks)
  have l: "linked ?s1" using Cons.prems(1,2) bo by (intro linked_callCallbacks)
  have d: "dedup env ?s1 cbs" using Cons.prems by (rule dedup_callCallbacks)
  from moves_callCallbacks [of s env cb] obtain N X where "moves s ?s1 N X" by blast
  from batch_ok_moves [OF Cons.prems(4) this] have "batch_ok ?s1 cbs" .
  from Cons.IH [OF w l d this] show ?case by simp
qed

lemma chain_to_timers [simp]: "chain_to (s\<lparr>timers := ts\<rparr>) k p = chain_to s k p"
  by (simp add: chain_to_def)

lemma live_ok_timers [simp]: "live_ok env (s\<lparr>timers := ts\<rparr>) A cb = live_ok env s A cb"
  by (simp add: live_ok_def)

lemma client_ok_timers [simp]: "client_ok env (s\<lparr>timers := ts\<rparr>) L A c = client_ok env s L A c"
  by (simp add: client_ok_def)

lemma live_ok_mono: "live_ok env s A cb \<Longrightarrow> A' \<subseteq> A \<Longrightarrow> live_ok env s A' cb"
  unfolding live_ok_def by blast

lemma client_ok_mono: "client_ok env s L A c \<Longrightarrow> L' \<subseteq> L \<Longrightarrow> A' \<subseteq> A \<Longrightarrow> client_ok env s L' A' c"
  unfolding client_ok_def by blast

lemma dedup_pop:
  assumes "dedup env s []" and "set cbs \<union> live (s\<lparr>timers := ts\<rparr>) \<subseteq> live s"
    and "set cbs \<union> stored (s\<lparr>timers := ts\<rparr>) \<subseteq> stored s"
  shows "dedup env (s\<lparr>timers := ts\<rparr>) cbs"
  unfolding dedup_def
proof (intro conjI ballI)
  fix cb assume "cb \<in> set cbs \<union> live (s\<lparr>timers := ts\<rparr>)"
  then have "live_ok env s (stored s) cb" using assms(1,2) by (auto simp: dedup_def)
  then show "live_ok env (s\<lparr>timers := ts\<rparr>) (set cbs \<union> stored (s\<lparr>timers := ts\<rparr>)) cb"
    using assms(3) by (simp add: live_ok_mono)
next
  fix c assume "c \<in> set (http (s\<lparr>timers := ts\<rparr>))"
  then have "client_ok env s (live s) (stored s) c" using assms(1) by (simp add: dedup_def)
  then show "client_ok env (s\<lparr>timers := ts\<rparr>) (set cbs \<union> live (s\<lparr>timers := ts\<rparr>))
      (set cbs \<union> stored (s\<lparr>timers := ts\<rparr>)) c"
    using assms(2,3) by (simp add: client_ok_mono)
qed

lemma stored_target:
  assumes "tidy s" and "linked s" and "cb \<in> stored s"
  shows "forward (promises s (cb_new cb)) = Some (cb_src cb)"
  using assms(2,3) by (cases cb) (auto simp: linked_def)

lemma live_pop:
  assumes "timers s = t # ts"
  shows "live (s\<lparr>timers := ts\<rparr>) \<subseteq> live s" "stored (s\<lparr>timers := ts\<rparr>) \<subseteq> stored s"
  using assms by (auto simp: live_def stored_def)

lemma pop_deferred:
  assumes t: "tidy s" and l: "linked s" and u: "unique s" and d: "dedup env s []"
    and ti: "timers s = RunDeferred p # ts"
  shows "dedup env (s\<lparr>timers := ts\<rparr>) (deferred (promises s p)) \<and>
         batch_ok (s\<lparr>timers := ts\<rparr>) (deferred (promises s p))"
proof -
  let ?s0 = "s\<lparr>timers := ts\<rparr>" and ?b = "deferred (promises s p)"
  have p: "p < next_promise s" "pstate (promises s p) \<noteq> None"
    using t ti by (auto simp: tidy_def)
  have bl: "set ?b \<subseteq> live s" using p(1) ti by (auto simp: live_def)
  have bs: "set ?b \<subseteq> stored s" using bl live_stored by blast
  have 1: "dedup env ?s0 ?b"
    using live_pop [OF ti] bl bs by (intro dedup_pop [OF d]) auto
  have np: "RunDeferred p \<notin> set ts" using u ti by (auto simp: unique_def)
  have src: "cb_src cb = p" if "cb \<in> set ?b" for cb using t p(1) that by (simp add: tidy_def)
  have other: "cb_new cb' \<noteq> cb_new cb" if "cb \<in> set ?b" "cb' \<in> live ?s0" for cb cb'
  proof
    assume e: "cb_new cb' = cb_new cb"
    have "cb' \<in> stored s" using that(2) live_pop [OF ti] live_stored by blast
    then have "forward (promises s (cb_new cb')) = Some (cb_src cb')" by (rule stored_target [OF t l])
    moreover have "forward (promises s (cb_new cb)) = Some p"
      using stored_target [OF t l, of cb] that(1) bs src by auto
    ultimately have s': "cb_src cb' = p" using e by simp
    from that(2) consider "RunCallback cb' \<in> set ts"
      | q where "q < next_promise s" "cb' \<in> set (deferred (promises s q))"
          "pstate (promises s q) = None \<or> RunDeferred q \<in> set ts"
      by (auto simp: live_def)
    then show False
    proof cases
      case 1
      then have "cb_new cb' \<notin> cb_new ` set (deferred (promises s (cb_src cb')))"
        using u ti by (simp add: unique_def)
      then show False using s' e that(1) by (metis image_eqI)
    next
      case 2
      then have "cb_src cb' = q" using t by (simp add: tidy_def)
      then show False using 2(3) s' p(2) np by auto
    qed
  qed
  have "distinct (map cb_new ?b)" using u p(1) by (simp add: unique_def)
  moreover have "cb_ok (next_promise ?s0) cb \<and> cb_src cb < next_promise ?s0 \<and>
      pstate (promises ?s0 (cb_src cb)) \<noteq> None \<and> cb_linked ?s0 cb" if "cb \<in> set ?b" for cb
    using t l p src [OF that] that bs by (auto simp: tidy_def linked_def)
  ultimately have "batch_ok ?s0 ?b" unfolding batch_ok_def using other by blast
  with 1 show ?thesis by simp
qed

lemma pop_callback:
  assumes t: "tidy s" and l: "linked s" and u: "unique s" and d: "dedup env s []"
    and ti: "timers s = RunCallback cb # ts"
  shows "dedup env (s\<lparr>timers := ts\<rparr>) [cb] \<and> batch_ok (s\<lparr>timers := ts\<rparr>) [cb]"
proof -
  let ?s0 = "s\<lparr>timers := ts\<rparr>"
  have ok: "cb_src cb < next_promise s" "pstate (promises s (cb_src cb)) \<noteq> None"
    "cb_ok (next_promise s) cb"
    using t ti by (auto simp: tidy_def)
  have bl: "cb \<in> live s" using ti by (simp add: live_def)
  then have bs: "cb \<in> stored s" using live_stored by blast
  have 1: "dedup env ?s0 [cb]"
    using live_pop [OF ti] bl bs by (intro dedup_pop [OF d]) auto
  have other: "cb_new cb' \<noteq> cb_new cb" if "cb' \<in> live ?s0" for cb'
  proof
    assume e: "cb_new cb' = cb_new cb"
    have "cb' \<in> stored s" using that live_pop [OF ti] live_stored by blast
    then have "forward (promises s (cb_new cb')) = Some (cb_src cb')" by (rule stored_target [OF t l])
    moreover have "forward (promises s (cb_new cb)) = Some (cb_src cb)"
      using stored_target [OF t l bs] .
    ultimately have s': "cb_src cb' = cb_src cb" using e by simp
    from that consider "RunCallback cb' \<in> set ts"
      | q where "q < next_promise s" "cb' \<in> set (deferred (promises s q))"
      by (auto simp: live_def)
    then show False
    proof cases
      case 1
      have "distinct (cb_new cb # concat (map task_targets ts))" using u ti by (simp add: unique_def)
      then show False using 1 e by auto
    next
      case 2
      then have "cb_src cb' = q" using t by (simp add: tidy_def)
      moreover have "cb_new cb \<notin> cb_new ` set (deferred (promises s (cb_src cb)))"
        using u ti by (simp add: unique_def)
      ultimately show False using 2(2) s' e by (metis image_eqI)
    qed
  qed
  have "cb_linked ?s0 cb" using l bs by (simp add: linked_def)
  then have "batch_ok ?s0 [cb]" unfolding batch_ok_def using other ok by simp
  with 1 show ?thesis by simp
qed


text \<open>A step that starts no download and runs no continuation.\<close>

lemma dedup_quiet:
  assumes d: "dedup env s []" and t: "tidy s" and l: "linked s" and m: "moves s s' N X"
    and pt: "pending_tasks s' = pending_tasks s" and ht: "set (http s') \<subseteq> set (http s)"
    and x: "\<forall>x\<in>X. forward (promises s x) = None \<or> next_promise s \<le> x"
    and nx: "\<forall>cb\<in>N. cb_new cb \<notin> X"
    and n: "\<forall>cb\<in>N. handlers cb \<subseteq> range User"
  shows "dedup env s' []"
proof (rule dedup_frame [OF d t m, where K = "{}"])
  show "\<forall>cb\<in>set [] \<union> live s \<union> N. cb_new cb \<notin> X"
  proof
    fix cb assume "cb \<in> set [] \<union> live s \<union> N"
    then consider "cb \<in> live s" | "cb \<in> N" by auto
    then show "cb_new cb \<notin> X"
    proof cases
      case 1
      then have "cb \<in> stored s" using live_stored by blast
      then have "forward (promises s (cb_new cb)) \<noteq> None" "cb_new cb < next_promise s"
        using stored_target [OF t l] tidy_target [OF t] by auto
      then show ?thesis using x by fastforce
    next
      case 2 then show ?thesis using nx by blast
    qed
  qed
  show "\<forall>c\<in>set (http s). \<forall>p1. chain_to s (idFromUrl env (fst c)) p1 \<longrightarrow> p1 \<notin> X"
    using x by (fastforce simp: chain_to_def)
  show "\<forall>cb\<in>N. (\<forall>x. adopts cb x \<longrightarrow> x \<in> X) \<and>
        (\<forall>u. SpawnFn u \<in> handlers cb \<longrightarrow> chain_to s' (idFromUrl env u) (cb_new cb)) \<and>
        (\<forall>f. FinFn f \<in> handlers cb \<longrightarrow>
           f < next_file s' \<and> cb_src cb < next_promise s' \<and>
           pending_tasks s' (file_id (files s' f)) = Some (cb_src cb) \<and>
           (\<exists>rest. deferred (promises s' (cb_src cb)) = cb # rest))"
    using n by (auto simp: adopts_def)
  show "\<forall>c\<in>set (http s'). c \<in> set (http s) \<and> idFromUrl env (fst c) \<notin> {} \<or>
        client_ok env s' (set [] \<union> live s') (set [] \<union> stored s') c"
    using ht by auto
qed (simp_all add: pt)

lemma dedup_apply_progress:
  assumes "dedup env s []" and "tidy s" and "linked s" and "progress_ok f"
  shows "dedup env (snd (apply_fn env f vs s)) []"
proof -
  have e: "{x. f = AdoptFulfil x \<or> f = AdoptReject x} = {}"
    "pending_tasks (snd (apply_fn env f vs s)) = pending_tasks s"
    "http (snd (apply_fn env f vs s)) = http s"
    using assms(4) by (cases f; simp)+
  have "moves s (snd (apply_fn env f vs s)) {} (set (dispatch_queue s))"
    using moves_apply_fn [of s env f vs] e(1) by simp
  then show ?thesis
    using assms(3) e(2,3) by (intro dedup_quiet [OF assms(1,2,3)]) (auto simp: linked_def)
qed


lemma dedup_run_progress:
  assumes "dedup env s []" and "tidy s" and "linked s" and "\<forall>f\<in>set fs. progress_ok f"
  shows "dedup env (run_progress env fs v s) []"
  using assms
proof (induction fs arbitrary: s)
  case Nil
  then show ?case by simp
next
  case (Cons f fs)
  have ok: "fn_ok (next_promise s) (Some f)" "adopt_linked s (Some f)" "progress_ok f"
    using Cons.prems(4) by (cases f; simp)+
  from tidy_apply_fn [OF Cons.prems(2) ok(1), of env "[v]"]
    linked_apply_fn [OF Cons.prems(2,3) ok(2), of env "[v]"]
    dedup_apply_progress [OF Cons.prems(1,2,3) ok(3), where vs = "[v]"]
  show ?case using Cons by (auto split: prod.splits outcome.splits)
qed

lemma dedup_timeout:
  assumes "tidy s" and "linked s" and "unique s" and "dedup env s []"
  shows "dedup env (step env Timeout s) []"
proof (cases "timers s")
  case Nil
  then show ?thesis using assms by (simp add: step_def)
next
  case (Cons t ts)
  let ?s0 = "s\<lparr>timers := ts\<rparr>"
  have w0: "tidy ?s0" using assms(1) Cons by (rule tidy_pop)
  have l0: "linked ?s0" using assms(2) Cons by (rule linked_pop)
  have "dedup env (run_task env t ?s0) []"
  proof (cases t)
    case (RunDeferred p)
    from pop_deferred [OF assms Cons [unfolded RunDeferred]]
    show ?thesis using RunDeferred w0 l0 by (simp add: run_task_def dedup_run_deferred)
  next
    case (RunCallback cb)
    from pop_callback [OF assms Cons [unfolded RunCallback]]
    have "dedup env (run_deferred env [cb] ?s0) []" using w0 l0 by (simp only: dedup_run_deferred)
    then show ?thesis using RunCallback by (simp add: run_task_def)
  next
    case (RunNotify p v)
    have d0: "dedup env ?s0 []"
      using live_pop [OF Cons] by (intro dedup_pop [OF assms(4)]) auto
    show ?thesis
    proof (cases "progress_fns (promises s p)")
      case None
      then show ?thesis using RunNotify d0 by (simp add: run_task_def)
    next
      case (Some fns)
      then have "\<forall>f\<in>set fns. progress_ok f" using assms(1) by (auto simp: tidy_def)
      from dedup_run_progress [OF d0 w0 l0 this] show ?thesis
        using RunNotify Some by (simp add: run_task_def)
    qed
  qed
  then show ?thesis using Cons by (simp add: step_def)
qed


lemma live_requestDispatch [simp]: "live (snd (requestDispatch s)) = live s"
  by (rule live_alloc) (simp_all add: requestDispatch_steps)

lemma stored_requestDispatch [simp]: "stored (snd (requestDispatch s)) = stored s"
  using stored_pinkySwear [of s] by (simp add: requestDispatch_def case_prod_unfold Let_def)

lemma live_stored_chain:
  "live (chain u f s) \<subseteq> live s \<union> chain_cbs u f (next_promise s)"
  "stored (chain u f s) \<subseteq> stored s \<union> chain_cbs u f (next_promise s)"
proof -
  let ?n = "next_promise s"
  let ?s0 = "snd (requestDispatch s)"
  let ?s1 = "snd (then_promise ?n (Some (SpawnFn u)) None None ?s0)"
  let ?s2 = "snd (then_promise (Suc ?n) (Some (GetFn ''source'')) None None ?s1)"
  let ?s3 = "snd (then_promise (Suc (Suc ?n)) (Some (GetFn ''responseData'')) None None ?s2)"
  let ?s4 = "snd (then_promise (Suc (Suc (Suc ?n))) (Some (WriteFn u f)) None None ?s3)"
  let ?s5 = "snd (then_promise (Suc (Suc (Suc (Suc ?n)))) (Some (FinFn f)) (Some (FinFn f)) None ?s4)"
  have n: "next_promise ?s0 = Suc ?n" by (simp add: requestDispatch_steps)
  have c: "chain u f s = ?s5" by (simp add: chain_def)
  have "live ?s1 \<subseteq> insert (CallCallbacks ?n (Some (SpawnFn u)) None (Suc ?n)) (live s)"
    using live_then_promise [of ?n "Some (SpawnFn u)" None None ?s0] n by simp
  moreover have "live ?s2 \<subseteq> insert (CallCallbacks (Suc ?n) (Some (GetFn ''source'')) None
      (Suc (Suc ?n))) (live ?s1)"
    using live_then_promise [of "Suc ?n" "Some (GetFn ''source'')" None None ?s1] n by simp
  moreover have "live ?s3 \<subseteq> insert (CallCallbacks (Suc (Suc ?n)) (Some (GetFn ''responseData''))
      None (Suc (Suc (Suc ?n)))) (live ?s2)"
    using live_then_promise [of "Suc (Suc ?n)" "Some (GetFn ''responseData'')" None None ?s2] n
    by simp
  moreover have "live ?s4 \<subseteq> insert (CallCallbacks (Suc (Suc (Suc ?n))) (Some (WriteFn u f))
      None (Suc (Suc (Suc (Suc ?n))))) (live ?s3)"
    using live_then_promise [of "Suc (Suc (Suc ?n))" "Some (WriteFn u f)" None None ?s3] n
    by simp
  moreover have "live ?s5 \<subseteq> insert (CallCallbacks (Suc (Suc (Suc (Suc ?n)))) (Some (FinFn f))
      (Some (FinFn f)) (Suc (Suc (Suc (Suc (Suc ?n)))))) (live ?s4)"
    using live_then_promise [of "Suc (Suc (Suc (Suc ?n)))" "Some (FinFn f)" "Some (FinFn f)" None ?s4] n
    by simp
  ultimately show "live (chain u f s) \<subseteq> live s \<union> chain_cbs u f (next_promise s)"
    unfolding c chain_cbs_def by blast
  have "stored ?s1 \<subseteq> insert (CallCallbacks ?n (Some (SpawnFn u)) None (Suc ?n)) (stored s)"
    using stored_then_promise [of ?n "Some (SpawnFn u)" None None ?s0] n by simp
  moreover have "stored ?s2 \<subseteq> insert (CallCallbacks (Suc ?n) (Some (GetFn ''source'')) None
      (Suc (Suc ?n))) (stored ?s1)"
    using stored_then_promise [of "Suc ?n" "Some (GetFn ''source'')" None None ?s1] n by simp
  moreover have "stored ?s3 \<subseteq> insert (CallCallbacks (Suc (Suc ?n)) (Some (GetFn ''responseData''))
      None (Suc (Suc (Suc ?n)))) (stored ?s2)"
    using stored_then_promise [of "Suc (Suc ?n)" "Some (GetFn ''responseData'')" None None ?s2] n
    by simp
  moreover have "stored ?s4 \<subseteq> insert (CallCallbacks (Suc (Suc (Suc ?n))) (Some (WriteFn u f))
      None (Suc (Suc (Suc (Suc ?n))))) (stored ?s3)"
    using stored_then_promise [of "Suc (Suc (Suc ?n))" "Some (WriteFn u f)" None None ?s3] n
    by simp
  moreover have "stored ?s5 \<subseteq> insert (CallCallbacks (Suc (Suc (Suc (Suc ?n)))) (Some (FinFn f))
      (Some (FinFn f)) (Suc (Suc (Suc (Suc (Suc ?n)))))) (stored ?s4)"
    using stored_then_promise [of "Suc (Suc (Suc (Suc ?n)))" "Some (FinFn f)" "Some (FinFn f)" None ?s4] n
    by simp
  ultimately show "stored (chain u f s) \<subseteq> stored s \<union> chain_cbs u f (next_promise s)"
    unfolding c chain_cbs_def by blast
qed

lemma moves_chain: "moves s (chain u f s) (chain_cbs u f (next_promise s)) {}"
  unfolding moves_def
  using live_stored_chain [of u f s]
  by (auto simp: grows_chain chain_promises chain_cbs_def)

lemma moves_attachCallbacks:
  "\<exists>N. moves s (snd (attachCallbacks a p s)) N {} \<and> (\<forall>cb\<in>N. handlers cb \<subseteq> range User)"
proof (cases "no_callbacks a")
  case True
  then show ?thesis by (intro exI [of _ "{}"]) simp
next
  case False
  then have "snd (attachCallbacks a p s) =
      snd (then_promise p (map_option User (onload a)) (map_option User (onerror a))
             (map_option User (ondatastream a)) s)"
    by (simp add: attachCallbacks_def no_callbacks_def)
  then show ?thesis
    using moves_then_promise [of s p "map_option User (onload a)" "map_option User (onerror a)"]
    by (intro exI [of _ "{CallCallbacks p (map_option User (onload a))
          (map_option User (onerror a)) (next_promise s)}"]) auto
qed

lemma dedup_joined:
  assumes "dedup env s []" and "tidy s" and "linked s"
  shows "dedup env (snd (attachCallbacks a p (snd (fromURL env u s)))) []"
proof -
  let ?s1 = "snd (fromURL env u s)"
  have 1: "moves s ?s1 {} {}" by (rule moves_same) (simp_all add: grows_fromURL)
  from moves_attachCallbacks [of ?s1 a p] obtain N
    where 2: "moves ?s1 (snd (attachCallbacks a p ?s1)) N {}"
      and n: "\<forall>cb\<in>N. handlers cb \<subseteq> range User" by blast
  from moves_trans [OF 1 2] have m: "moves s (snd (attachCallbacks a p ?s1)) N {}" by simp
  show ?thesis by (rule dedup_quiet [OF assms m]) (use n in simp_all)
qed

lemma dedup_settled:
  assumes "dedup env s []" and "tidy s" and "linked s"
    and "grows s x" and "promises x = promises s" and "timers x = timers s"
    and "next_promise x = next_promise s" and "pending_tasks x = pending_tasks s"
    and "http x = http s"
  shows "dedup env (snd (attachCallbacks a (next_promise s)
           (set_promise (next_promise s) b vs (snd (pinkySwear x))))) []"
proof -
  let ?n = "next_promise s"
  let ?s2 = "snd (pinkySwear x)"
  let ?s3 = "set_promise ?n b vs ?s2"
  have 1: "moves s x {} {}" using assms(4-7) by (rule moves_same)
  from moves_trans [OF moves_trans [OF 1 moves_pinkySwear] moves_set_promise, of ?n b vs]
  have 3: "moves s ?s3 {} {?n}" by simp
  from moves_attachCallbacks [of ?s3 a ?n] obtain N
    where 4: "moves ?s3 (snd (attachCallbacks a ?n ?s3)) N {}"
      and n: "\<forall>cb\<in>N. handlers cb \<subseteq> range User" by blast
  have "next_promise ?s3 = Suc ?n" using assms(7) by (simp add: pinkySwear_def)
  then have nx: "\<forall>cb\<in>N. cb_new cb \<notin> {?n}" using 4 by (fastforce simp: moves_def)
  from moves_trans [OF 3 4] have m: "moves s (snd (attachCallbacks a ?n ?s3)) N {?n}" by simp
  show ?thesis
    by (rule dedup_quiet [OF assms(1-3) m]) (use n nx assms(8,9) in \<open>simp_all add: pinkySwear_def\<close>)
qed


lemma dedup_start_download:
  assumes d: "dedup env s []" and t: "tidy s" and l: "linked s"
    and f: "f < next_file s" and k: "pending_tasks s (file_id (files s f)) = None"
    and u: "idFromUrl env (url a) = file_id (files s f)"
  shows "dedup env (snd (start_download env a f s)) []"
proof -
  let ?n = "next_promise s"
  let ?k = "file_id (files s f)"
  let ?p1 = "Suc ?n"
  let ?p4 = "Suc (Suc (Suc (Suc ?n)))"
  let ?c = "chain (url a) f s"
  let ?m = "mark_pending f ?p4 ?c"
  let ?d = "dispatchNextTask env ?m"
  let ?s' = "snd (start_download env a f s)"
  let ?X = "set (dispatch_queue s) \<union> {?n}"
  let ?N5 = "chain_cbs (url a) f ?n"
  let ?hook = "CallCallbacks ?p4 (Some (FinFn f)) (Some (FinFn f)) (Suc ?p4)"
  have s': "?s' = snd (attachCallbacks a ?p4 ?d)" by (simp add: start_download_steps)
  have q: "\<forall>x\<in>set (dispatch_queue s). x < ?n \<and> forward (promises s x) = None"
    using t l by (simp add: tidy_def linked_def)
  have m1: "moves s ?c ?N5 {}" by (rule moves_chain)
  have m2: "moves ?c ?m {} {}"
    by (rule moves_same) (simp_all add: grows_mark_pending, simp_all add: mark_pending_def)
  have m3: "moves ?m ?d {} ?X"
    using moves_dispatchNextTask [of ?m env] by (simp add: mark_pending_def Un_commute)
  from moves_attachCallbacks [of ?d a ?p4] obtain N6
    where m4: "moves ?d ?s' N6 {}" and n6: "\<forall>cb\<in>N6. handlers cb \<subseteq> range User"
    unfolding s' by blast
  have n5x: "\<forall>cb\<in>?N5. cb_new cb \<notin> ?X" using q by (auto simp: chain_cbs_def)
  from moves_trans [OF moves_trans [OF m1 m2] m3] n5x have m13: "moves s ?d ?N5 ?X" by simp
  from moves_trans [OF m13 m4] have m: "moves s ?s' (?N5 \<union> N6) ?X" by simp
  have g: "grows s ?s'" using m by (simp add: moves_def)
  have "grows ?c ?m" "grows ?m ?d" "grows ?d ?s'"
    using m2 m3 m4 by (simp_all add: moves_def)
  then have g2: "grows ?c ?s'" by (blast intro: grows_trans)
  have nd: "next_promise ?d = ?n + 6"
    using m3 m2 by (simp add: dispatchNextTask_def resolve_def mark_pending_def split: list.splits)
  have n6n: "\<forall>cb\<in>N6. ?n + 6 \<le> cb_new cb" using m4 nd by (simp add: moves_def)
  have pt: "pending_tasks ?s' = (pending_tasks s)(?k \<mapsto> ?p4)"
    by (simp add: s' mark_pending_def)
  have ht: "http ?s' = http s"
    by (simp add: s' mark_pending_def dispatchNextTask_def resolve_def split: list.splits)
  have fw: "forward (promises ?s' q) = forward (promises ?c q)" if "q < ?n + 6" for q
    using g2 that by (simp add: grows_def)
  have nx': "?n + 6 \<le> next_promise ?s'" using g2 by (simp add: grows_def)
  have "forward (promises ?s' ?p4) = Some (Suc (Suc (Suc ?n)))"
    "forward (promises ?s' (Suc (Suc (Suc ?n)))) = Some (Suc (Suc ?n))"
    "forward (promises ?s' (Suc (Suc ?n))) = Some ?p1"
    "forward (promises ?s' ?p1) \<noteq> None"
    by (simp_all add: fw chain_forward)
  moreover have "?p4 < next_promise ?s'" "Suc (Suc (Suc ?n)) < next_promise ?s'"
    "Suc (Suc ?n) < next_promise ?s'" "?p1 < next_promise ?s'"
    using nx' by simp_all
  moreover have "pending_tasks ?s' ?k = Some ?p4" by (simp add: pt)
  ultimately have ch: "chain_to ?s' ?k ?p1"
    unfolding chain_to_def by blast
  have "prefix (deferred (promises ?c ?p4)) (deferred (promises ?s' ?p4))"
    using g2 by (simp add: grows_def)
  then have df: "\<exists>rest. deferred (promises ?s' ?p4) = ?hook # rest"
    by (auto simp: chain_promises prefix_def)
  have fi: "file_id (files ?s' f) = ?k" "f < next_file ?s'"
    using g f by (simp_all add: grows_def)
  have old: "idFromUrl env v \<noteq> ?k" if "chain_to s (idFromUrl env v) p" for v p
    using that k by (auto simp: chain_to_def)
  show ?thesis
  proof (rule dedup_frame [OF d t m, where K = "{?k}"])
    show "\<forall>cb\<in>set [] \<union> live s \<union> (?N5 \<union> N6). cb_new cb \<notin> ?X"
    proof
      fix cb assume "cb \<in> set [] \<union> live s \<union> (?N5 \<union> N6)"
      then consider "cb \<in> live s" | "cb \<in> ?N5" | "cb \<in> N6" by auto
      then show "cb_new cb \<notin> ?X"
      proof cases
        case 1
        then have "cb \<in> stored s" using live_stored by blast
        then have "forward (promises s (cb_new cb)) \<noteq> None" "cb_new cb < next_promise s"
          using stored_target [OF t l] tidy_target [OF t] by auto
        then show ?thesis using q by fastforce
      next
        case 2 then show ?thesis using n5x by blast
      next
        case 3 then show ?thesis using n6n q by fastforce
      qed
    qed
    show "\<forall>c\<in>set (http s). \<forall>p1. chain_to s (idFromUrl env (fst c)) p1 \<longrightarrow> p1 \<notin> ?X"
      using q by (fastforce simp: chain_to_def)
    show "\<forall>cb\<in>?N5 \<union> N6. (\<forall>x. adopts cb x \<longrightarrow> x \<in> ?X) \<and>
        (\<forall>u. SpawnFn u \<in> handlers cb \<longrightarrow> chain_to ?s' (idFromUrl env u) (cb_new cb)) \<and>
        (\<forall>f. FinFn f \<in> handlers cb \<longrightarrow>
           f < next_file ?s' \<and> cb_src cb < next_promise ?s' \<and>
           pending_tasks ?s' (file_id (files ?s' f)) = Some (cb_src cb) \<and>
           (\<exists>rest. deferred (promises ?s' (cb_src cb)) = cb # rest))"
    proof
      fix cb assume "cb \<in> ?N5 \<union> N6"
      then consider "cb \<in> ?N5" | "cb \<in> N6" by auto
      then show "(\<forall>x. adopts cb x \<longrightarrow> x \<in> ?X) \<and>
        (\<forall>u. SpawnFn u \<in> handlers cb \<longrightarrow> chain_to ?s' (idFromUrl env u) (cb_new cb)) \<and>
        (\<forall>f. FinFn f \<in> handlers cb \<longrightarrow>
           f < next_file ?s' \<and> cb_src cb < next_promise ?s' \<and>
           pending_tasks ?s' (file_id (files ?s' f)) = Some (cb_src cb) \<and>
           (\<exists>rest. deferred (promises ?s' (cb_src cb)) = cb # rest))"
      proof cases
        case 1
        then show ?thesis
          using ch u df fi pt nx' by (auto simp: chain_cbs_def adopts_def)
      next
        case 2
        then show ?thesis using n6 by (auto simp: adopts_def)
      qed
    qed
    show "\<forall>k. k \<notin> {?k} \<longrightarrow> pending_tasks ?s' k = pending_tasks s k" by (simp add: pt)
    show "\<forall>cb\<in>set [] \<union> live s.
        (\<forall>u. SpawnFn u \<in> handlers cb \<longrightarrow> idFromUrl env u \<notin> {?k}) \<and>
        (\<forall>f. FinFn f \<in> handlers cb \<longrightarrow> file_id (files s f) \<notin> {?k})"
    proof (intro ballI conjI allI impI)
      fix cb v assume "cb \<in> set [] \<union> live s" and "SpawnFn v \<in> handlers cb"
      then have "chain_to s (idFromUrl env v) (cb_new cb)"
        using d by (auto simp: dedup_def live_ok_def)
      then show "idFromUrl env v \<notin> {?k}" using old by auto
    next
      fix cb f' assume "cb \<in> set [] \<union> live s" and "FinFn f' \<in> handlers cb"
      then have "pending_tasks s (file_id (files s f')) = Some (cb_src cb)"
        using d by (auto simp: dedup_def live_ok_def)
      then show "file_id (files s f') \<notin> {?k}" using k by auto
    qed
    show "\<forall>c\<in>set (http ?s'). c \<in> set (http s) \<and> idFromUrl env (fst c) \<notin> {?k} \<or>
        client_ok env ?s' (set [] \<union> live ?s') (set [] \<union> stored ?s') c"
    proof
      fix c assume "c \<in> set (http ?s')"
      then have c: "c \<in> set (http s)" by (simp add: ht)
      then obtain p1 where "chain_to s (idFromUrl env (fst c)) p1"
        using d unfolding dedup_def client_ok_def by blast
      then show "c \<in> set (http s) \<and> idFromUrl env (fst c) \<notin> {?k} \<or>
        client_ok env ?s' (set [] \<union> live ?s') (set [] \<union> stored ?s') c"
        using c old by auto
    qed
  qed simp_all
qed


lemma dedup_init: "dedup env (init md dk t on) []"
  by (simp add: dedup_def init_def live_def)

lemma dedup_fields:
  assumes "dedup env s []" and "tidy s" and "linked s"
    and "grows s x" and "promises x = promises s" and "timers x = timers s"
    and "next_promise x = next_promise s" and "pending_tasks x = pending_tasks s"
    and "http x = http s"
  shows "dedup env x []"
proof -
  have m: "moves s x {} {}" using assms(4-7) by (rule moves_same)
  show ?thesis by (rule dedup_quiet [OF assms(1-3) m]) (use assms(8,9) in simp_all)
qed

lemma dedup_download:
  assumes "dedup env s []" and "tidy s" and "linked s"
  shows "dedup env (snd (download env a s)) []"
proof (cases "pending_tasks s (idFromUrl env (url a))")
  case (Some p)
  show ?thesis
    unfolding download_in_flight [OF Some] using assms by (rule dedup_joined)
next
  case None
  let ?s1 = "snd (fromURL env (url a) s)"
  let ?f = "next_file s"
  have g1: "grows s ?s1" by (rule grows_fromURL)
  have a: "dedup env (snd (attachCallbacks a (next_promise s)
              (set_promise (next_promise s) (Some True) [FileV ?f]
                (snd (pinkySwear (save ?f (updateLastUsedAt ?f ?s1))))))) []"
    by (rule dedup_settled [OF assms])
       (simp_all add: grows_trans [OF grows_trans [OF g1 grows_updateLastUsedAt] grows_save],
        simp_all add: save_def updateLastUsedAt_def)
  have b: "dedup env (snd (attachCallbacks a (next_promise s)
              (set_promise (next_promise s) (Some False) [Str ''Network offline'']
                (snd (pinkySwear ?s1))))) []"
    by (rule dedup_settled [OF assms]) (simp_all add: g1)
  have d1: "dedup env ?s1 []" by (rule dedup_fields [OF assms]) (simp_all add: g1)
  have "file_id (files ?s1 ?f) = idFromUrl env (url a)"
    by (simp add: fromURL_def File_def Let_def split: option.splits)
  then have c: "dedup env (snd (start_download env a ?f ?s1)) []"
    using None
    by (intro dedup_start_download d1 tidy_fromURL linked_fromURL assms(2,3)) simp_all
  show ?thesis unfolding download_not_in_flight [OF None] using a b c by simp
qed

lemma dedup_http_done:
  assumes "dedup env s []" and "tidy s" and "linked s" and "i < length (http s)"
  shows "dedup env (set_promise (snd (http s ! i)) b vs (s\<lparr>http := remove_nth i (http s)\<rparr>)) []"
proof -
  let ?c = "snd (http s ! i)"
  have "moves s (s\<lparr>http := remove_nth i (http s)\<rparr>) {} {}" by (rule moves_same) simp_all
  from moves_trans [OF this moves_set_promise, of ?c b vs]
  have m: "moves s (set_promise ?c b vs (s\<lparr>http := remove_nth i (http s)\<rparr>)) {} {?c}" by simp
  have "http s ! i \<in> set (http s)" using assms(4) by simp
  then have f: "forward (promises s ?c) = None" using assms(3) by (simp add: linked_def)
  have sub: "set (remove_nth i (http s)) \<subseteq> set (http s)"
    by (auto simp: remove_nth_def dest: in_set_takeD in_set_dropD)
  show ?thesis by (rule dedup_quiet [OF assms(1-3) m]) (use f sub in simp_all)
qed

lemma dedup_step:
  assumes "tidy s" and "linked s" and "unique s" and "dedup env s []"
  shows "dedup env (step env a s) []"
proof (cases a)
  case (Download ar)
  then show ?thesis using assms by (simp add: step_def dedup_download)
next
  case Timeout
  then show ?thesis using assms by (simp add: dedup_timeout)
next
  case (HttpLoad i d)
  then show ?thesis using assms by (simp add: step_def resolve_def dedup_http_done)
next
  case (HttpError i e)
  then show ?thesis using assms by (simp add: step_def reject_def dedup_http_done)
next
  case (HttpDataStream i v)
  have "dedup env (notify p v s) []" for p
    by (rule dedup_quiet [OF assms(4,1,2) moves_notify]) simp_all
  then show ?thesis using HttpDataStream assms by (simp add: step_def)
next
  case (Clock d)
  have "dedup env (s\<lparr>now := now s + int d\<rparr>) []"
    by (rule dedup_fields [OF assms(4,1,2)]) (simp_all add: grows_def)
  then show ?thesis using Clock by (simp add: step_def)
next
  case (Network b)
  have "dedup env (s\<lparr>online := b\<rparr>) []"
    by (rule dedup_fields [OF assms(4,1,2)]) (simp_all add: grows_def)
  then show ?thesis using Network by (simp add: step_def)
qed

lemma reachable_dedup: "reachable env s \<Longrightarrow> dedup env s []"
  by (induction rule: reachable.induct)
     (simp_all add: dedup_init dedup_step reachable_wf reachable_linked reachable_unique)

end
